theory Spec2Isabelle
  imports Main
begin

section \<open>The Kaleidoscope front end: data model\<close>

text \<open>
  The development follows \<^verbatim>\<open>kaleidoscope/lexer_parser_ast_cgen.cpp\<close>: the lexer
  \<^verbatim>\<open>gettok\<close>, the recursive-descent parser with operator-precedence climbing, the lowering
  methods \<^verbatim>\<open>Codegen\<close> and the driver \<^verbatim>\<open>MainLoop\<close>. The globals of the program are the
  fields of one record that every function takes and returns.

  A \<^verbatim>\<open>double\<close> is represented by the numeral text that the lexer hands to \<^verbatim>\<open>strtod\<close>;
  the value of the conversion is a function of that text and plays no part below.
\<close>

type_synonym double = string

text \<open>
  The backend's values. An \<^verbatim>\<open>llvm::Value *\<close> returned by the instruction builder is
  represented by the term of the instruction that computes it; \<open>Argument f i\<close> is the
  \<open>i\<close>-th formal argument of the function object \<open>f\<close>, and \<open>CallInst f vs\<close> a call of the
  function object \<open>f\<close>. A null pointer is \<open>None\<close> of the option type.
\<close>

datatype Value =
    ConstantFP double
  | Argument nat nat
  | FAdd Value Value
  | FSub Value Value
  | FMul Value Value
  | FCmpULT Value Value
  | UIToFP Value
  | CallInst nat "Value list"

text \<open>
  A function object of the module: its identity (the address of the \<^verbatim>\<open>llvm::Function\<close>),
  its name, the number of its formal arguments, its basic blocks (by name) and the operand
  of its \<^verbatim>\<open>ret\<close> instruction. \<^verbatim>\<open>F->empty()\<close> holds when it has no basic block.
\<close>

record Function =
  fn_id :: nat
  fn_name :: string
  arg_size :: nat
  blocks :: "string list"
  ret :: "Value option"

datatype ExprAST =
    NumberExprAST double
  | VariableExprAST string
  | BinaryExprAST char ExprAST ExprAST
  | CallExprAST string "ExprAST list"

datatype PrototypeAST = PrototypeAST string "string list"

datatype FunctionAST = FunctionAST PrototypeAST ExprAST

text \<open>
  The program state: the unread standard input, the texts written to \<^verbatim>\<open>stderr\<close> (one entry
  for each \<^verbatim>\<open>fprintf\<close>, without the newline; the IR dumps are left out), the lexer's statics
  \<^verbatim>\<open>LastChar\<close>, \<^verbatim>\<open>IdentifierStr\<close> and \<^verbatim>\<open>NumVal\<close>, the parser's \<^verbatim>\<open>CurTok\<close>, the symbol scope
  \<^verbatim>\<open>NamedValues\<close> (a \<^verbatim>\<open>std::map\<close> from names to value pointers, which may hold null
  pointers), the functions of \<^verbatim>\<open>TheModule\<close> in the order of their creation, and the next
  fresh function identity.
\<close>

record state =
  stdin :: string
  stderr :: "string list"
  LastChar :: int
  IdentifierStr :: string
  NumVal :: double
  CurTok :: int
  NamedValues :: "string \<rightharpoonup> Value option"
  TheModule :: "Function list"
  next_id :: nat

section \<open>Lexer\<close>

definition EOF :: int where "EOF = - 1"

definition tok_eof :: int where "tok_eof = - 1"
definition tok_def :: int where "tok_def = - 2"
definition tok_extern :: int where "tok_extern = - 3"
definition tok_identifier :: int where "tok_identifier = - 4"
definition tok_number :: int where "tok_number = - 5"

text \<open>The character classes of \<^verbatim>\<open><cctype>\<close> in the C locale, on the \<^verbatim>\<open>int\<close> they take.\<close>

definition isspace :: "int \<Rightarrow> bool" where
  "isspace c = (c = 32 \<or> (9 \<le> c \<and> c \<le> 13))"

definition isalpha :: "int \<Rightarrow> bool" where
  "isalpha c = ((65 \<le> c \<and> c \<le> 90) \<or> (97 \<le> c \<and> c \<le> 122))"

definition isdigit :: "int \<Rightarrow> bool" where
  "isdigit c = (48 \<le> c \<and> c \<le> 57)"

definition isalnum :: "int \<Rightarrow> bool" where
  "isalnum c = (isalpha c \<or> isdigit c)"

definition isascii :: "int \<Rightarrow> bool" where
  "isascii c = (0 \<le> c \<and> c \<le> 127)"

text \<open>\<^verbatim>\<open>getchar()\<close>: the next byte of the input as a non-negative \<^verbatim>\<open>int\<close>, or \<^verbatim>\<open>EOF\<close>.\<close>

definition getchar :: "state \<Rightarrow> int \<times> state" where
  "getchar s = (case stdin s of [] \<Rightarrow> (EOF, s) | c # cs \<Rightarrow> (of_char c, s\<lparr>stdin := cs\<rparr>))"

text \<open>The statement \<^verbatim>\<open>LastChar = getchar();\<close>\<close>

definition advance :: "state \<Rightarrow> state" where
  "advance s = (let (c, s') = getchar s in s'\<lparr>LastChar := c\<rparr>)"

lemma advance_length: "length (stdin (advance s)) \<le> length (stdin s)"
  by (simp add: advance_def getchar_def split: list.splits)

lemma advance_nil: "stdin s = [] \<Longrightarrow> LastChar (advance s) = EOF"
  by (simp add: advance_def getchar_def)

lemma advance_cons: "stdin s \<noteq> [] \<Longrightarrow> length (stdin (advance s)) < length (stdin s)"
  by (simp add: advance_def getchar_def split: list.splits)

lemma advance_shorter:
  "LastChar (advance s) \<noteq> EOF \<Longrightarrow> length (stdin (advance s)) < length (stdin s)"
  using advance_nil advance_cons by blast

lemma not_EOF [simp]: "\<not> isspace EOF" "\<not> isalpha EOF" "\<not> isdigit EOF" "\<not> isalnum EOF"
  by (simp_all add: isspace_def isalpha_def isdigit_def isalnum_def EOF_def)

text \<open>\<^verbatim>\<open>while (isspace(LastChar)) LastChar = getchar();\<close>\<close>

function skip_space :: "state \<Rightarrow> state" where
  "skip_space s = (if isspace (LastChar s) then skip_space (advance s) else s)"
  by pat_completeness auto
termination
proof (relation "measure (\<lambda>s. length (stdin s) + (if isspace (LastChar s) then 1 else 0))")
  fix s :: state
  assume "isspace (LastChar s)"
  then show "(advance s, s)
      \<in> measure (\<lambda>s. length (stdin s) + (if isspace (LastChar s) then 1 else 0))"
    using advance_shorter [of s] advance_length [of s]
    by (cases "LastChar (advance s) = EOF") auto
qed simp

text \<open>\<^verbatim>\<open>while (isalnum((LastChar = getchar()))) IdentifierStr += LastChar;\<close>\<close>

function read_ident :: "state \<Rightarrow> state" where
  "read_ident s =
     (let s1 = advance s in
      if isalnum (LastChar s1)
      then read_ident (s1\<lparr>IdentifierStr := IdentifierStr s1 @ [char_of (LastChar s1)]\<rparr>)
      else s1)"
  by pat_completeness auto
termination
proof (relation "measure (\<lambda>s. length (stdin s))")
  fix s s1 :: state
  assume "s1 = advance s" "isalnum (LastChar s1)"
  moreover from this have "LastChar (advance s) \<noteq> EOF" by auto
  ultimately show "(s1\<lparr>IdentifierStr := IdentifierStr s1 @ [char_of (LastChar s1)]\<rparr>, s)
      \<in> measure (\<lambda>s. length (stdin s))"
    by (simp add: advance_shorter)
qed simp

text \<open>
  \<^verbatim>\<open>do { NumStr += LastChar; LastChar = getchar(); } while (isdigit(LastChar) || LastChar == '.');\<close>
\<close>

function read_number :: "string \<Rightarrow> state \<Rightarrow> string \<times> state" where
  "read_number NumStr s =
     (let NumStr1 = NumStr @ [char_of (LastChar s)];
          s1 = advance s in
      if isdigit (LastChar s1) \<or> LastChar s1 = of_char CHR ''.''
      then read_number NumStr1 s1
      else (NumStr1, s1))"
  by pat_completeness auto
termination
proof (relation "measure (\<lambda>(n, s). length (stdin s))")
  fix NumStr NumStr1 :: string and s s1 :: state
  assume "s1 = advance s" "isdigit (LastChar s1) \<or> LastChar s1 = of_char CHR ''.''"
  moreover from this have "LastChar (advance s) \<noteq> EOF"
    by (auto simp: EOF_def isdigit_def)
  ultimately show "((NumStr1, s1), (NumStr, s)) \<in> measure (\<lambda>(n, s). length (stdin s))"
    by (simp add: advance_shorter)
qed simp

text \<open>
  \<^verbatim>\<open>do LastChar = getchar(); while (LastChar != EOF && LastChar != '\n' && LastChar != '\r');\<close>
\<close>

function skip_comment :: "state \<Rightarrow> state" where
  "skip_comment s =
     (let s1 = advance s in
      if LastChar s1 \<noteq> EOF \<and> LastChar s1 \<noteq> of_char CHR 0x0A \<and> LastChar s1 \<noteq> of_char CHR 0x0D
      then skip_comment s1
      else s1)"
  by pat_completeness auto
termination
proof (relation "measure (\<lambda>s. length (stdin s))")
  fix s s1 :: state
  assume "s1 = advance s"
    "LastChar s1 \<noteq> EOF \<and> LastChar s1 \<noteq> of_char CHR 0x0A \<and> LastChar s1 \<noteq> of_char CHR 0x0D"
  then show "(s1, s) \<in> measure (\<lambda>s. length (stdin s))"
    by (simp add: advance_shorter)
qed simp

declare skip_space.simps [simp del] read_ident.simps [simp del]
  read_number.simps [simp del] skip_comment.simps [simp del]

lemma skip_space_length: "length (stdin (skip_space s)) \<le> length (stdin s)"
proof (induction s rule: skip_space.induct)
  case (1 s)
  show ?case
  proof (cases "isspace (LastChar s)")
    case True
    then show ?thesis
      using 1 advance_length [of s] by (subst skip_space.simps) auto
  next
    case False
    then show ?thesis by (subst skip_space.simps) simp
  qed
qed

lemma skip_comment_shorter:
  "LastChar (skip_comment s) \<noteq> EOF \<Longrightarrow> length (stdin (skip_comment s)) < length (stdin s)"
proof (induction s rule: skip_comment.induct)
  case (1 s)
  let ?s1 = "advance s"
  show ?case
  proof (cases "LastChar ?s1 \<noteq> EOF \<and> LastChar ?s1 \<noteq> of_char CHR 0x0A
      \<and> LastChar ?s1 \<noteq> of_char CHR 0x0D")
    case True
    then have eq: "skip_comment s = skip_comment ?s1"
      by (subst skip_comment.simps) (simp add: Let_def)
    with 1 True have "length (stdin (skip_comment ?s1)) < length (stdin ?s1)"
      by simp
    then show ?thesis using eq advance_length [of s] by simp
  next
    case False
    then have eq: "skip_comment s = ?s1"
      by (subst skip_comment.simps) (auto simp add: Let_def)
    then show ?thesis using 1(2) advance_shorter [of s] by simp
  qed
qed

text \<open>
  \<^verbatim>\<open>gettok\<close>: the next token of the standard input. A token is an \<^verbatim>\<open>int\<close>: one of the five
  negative codes above, or the code of a character. After a comment that does not end the
  input the function calls itself.
\<close>

function gettok :: "state \<Rightarrow> int \<times> state" where
  "gettok s0 =
     (let s = skip_space s0 in
      if isalpha (LastChar s) then
        (let s1 = read_ident (s\<lparr>IdentifierStr := [char_of (LastChar s)]\<rparr>) in
         if IdentifierStr s1 = ''def'' then (tok_def, s1)
         else if IdentifierStr s1 = ''extern'' then (tok_extern, s1)
         else (tok_identifier, s1))
      else if isdigit (LastChar s) \<or> LastChar s = of_char CHR ''.'' then
        (let (NumStr, s1) = read_number [] s in
         (tok_number, s1\<lparr>NumVal := NumStr\<rparr>))
      else
        (let s1 = (if LastChar s = of_char CHR ''#'' then skip_comment s else s) in
         if LastChar s = of_char CHR ''#'' \<and> LastChar s1 \<noteq> EOF then gettok s1
         else if LastChar s1 = EOF then (tok_eof, s1)
         else (LastChar s1, advance s1)))"
  by pat_completeness auto
termination
proof (relation "measure (\<lambda>s. length (stdin s))")
  fix s0 s s1 :: state
  assume "s = skip_space s0"
    "s1 = (if LastChar s = of_char CHR ''#'' then skip_comment s else s)"
    "LastChar s = of_char CHR ''#'' \<and> LastChar s1 \<noteq> EOF"
  then show "(s1, s0) \<in> measure (\<lambda>s. length (stdin s))"
    using skip_comment_shorter [of s] skip_space_length [of s0] by auto
qed simp

declare gettok.simps [simp del]

text \<open>The number of characters the lexer has not consumed yet, the lookahead included.\<close>

definition unread :: "state \<Rightarrow> nat" where
  "unread s = length (stdin s) + (if LastChar s = EOF then 0 else 1)"

lemma of_char_not_EOF [simp]: "(of_char c :: int) \<noteq> EOF" "EOF \<noteq> (of_char c :: int)"
proof -
  have "(0::int) \<le> of_char c" by (metis of_char_mod_256 pos_mod_sign zero_less_numeral)
  then show "(of_char c :: int) \<noteq> EOF" "EOF \<noteq> (of_char c :: int)"
    by (simp_all add: EOF_def)
qed

lemma unread_upd [simp]:
  "unread (s\<lparr>NumVal := n\<rparr>) = unread s"
  "unread (s\<lparr>IdentifierStr := i\<rparr>) = unread s"
  "unread (s\<lparr>CurTok := t\<rparr>) = unread s"
  "unread (s\<lparr>stderr := e\<rparr>) = unread s"
  by (simp_all add: unread_def)

lemma unread_advance_le: "unread (advance s) \<le> unread s"
  by (auto simp: unread_def advance_def getchar_def split: list.splits)

lemma unread_advance_less: "LastChar s \<noteq> EOF \<Longrightarrow> unread (advance s) < unread s"
  by (auto simp: unread_def advance_def getchar_def split: list.splits)

lemma unread_skip_space: "unread (skip_space s) \<le> unread s"
proof (induction s rule: skip_space.induct)
  case (1 s)
  show ?case
  proof (cases "isspace (LastChar s)")
    case True
    then show ?thesis
      using 1 unread_advance_le [of s] by (subst skip_space.simps) auto
  next
    case False
    then show ?thesis by (subst skip_space.simps) simp
  qed
qed

lemma unread_read_ident: "LastChar s \<noteq> EOF \<Longrightarrow> unread (read_ident s) < unread s"
proof (induction s rule: read_ident.induct)
  case (1 s)
  let ?s1 = "advance s"
  let ?s2 = "?s1\<lparr>IdentifierStr := IdentifierStr ?s1 @ [char_of (LastChar ?s1)]\<rparr>"
  show ?case
  proof (cases "isalnum (LastChar ?s1)")
    case True
    then have ne: "LastChar ?s2 \<noteq> EOF" by auto
    have "unread (read_ident ?s2) < unread ?s2"
      using 1(1) [OF refl True ne] .
    moreover have "unread ?s2 = unread ?s1" by simp
    moreover have "read_ident s = read_ident ?s2"
      using True by (subst read_ident.simps) (simp add: Let_def)
    ultimately show ?thesis using unread_advance_le [of s] by simp
  next
    case False
    then have "read_ident s = ?s1"
      by (subst read_ident.simps) (simp add: Let_def)
    then show ?thesis using unread_advance_less [OF 1(2)] by simp
  qed
qed

lemma unread_read_number:
  "LastChar s \<noteq> EOF \<Longrightarrow> unread (snd (read_number n s)) < unread s"
proof (induction n s rule: read_number.induct)
  case (1 NumStr s)
  let ?s1 = "advance s"
  let ?n1 = "NumStr @ [char_of (LastChar s)]"
  show ?case
  proof (cases "isdigit (LastChar ?s1) \<or> LastChar ?s1 = of_char CHR ''.''")
    case True
    then have ne: "LastChar ?s1 \<noteq> EOF" by (auto simp: EOF_def isdigit_def)
    have "unread (snd (read_number ?n1 ?s1)) < unread ?s1"
      using 1(1) [OF refl refl True ne] .
    moreover have "read_number NumStr s = read_number ?n1 ?s1"
      using True by (subst read_number.simps) (simp add: Let_def)
    ultimately show ?thesis using unread_advance_le [of s] by simp
  next
    case False
    then have "read_number NumStr s = (?n1, ?s1)"
      by (subst read_number.simps) (simp add: Let_def)
    then show ?thesis using unread_advance_less [OF 1(2)] by simp
  qed
qed

lemma unread_skip_comment: "unread (skip_comment s) \<le> unread s"
proof (induction s rule: skip_comment.induct)
  case (1 s)
  let ?s1 = "advance s"
  show ?case
  proof (cases "LastChar ?s1 \<noteq> EOF \<and> LastChar ?s1 \<noteq> of_char CHR 0x0A
      \<and> LastChar ?s1 \<noteq> of_char CHR 0x0D")
    case True
    then have eq: "skip_comment s = skip_comment ?s1"
      by (subst skip_comment.simps) (simp add: Let_def)
    with 1 True have "unread (skip_comment ?s1) \<le> unread ?s1"
      by simp
    then show ?thesis using eq unread_advance_le [of s] by simp
  next
    case False
    then have eq: "skip_comment s = ?s1"
      by (subst skip_comment.simps) (auto simp add: Let_def)
    then show ?thesis using unread_advance_le [of s] by simp
  qed
qed

lemma skip_comment_unfold:
  "skip_comment s =
     (if LastChar (advance s) \<noteq> EOF \<and> LastChar (advance s) \<noteq> of_char CHR 0x0A
        \<and> LastChar (advance s) \<noteq> of_char CHR 0x0D
      then skip_comment (advance s) else advance s)"
  using skip_comment.simps [of s] by (simp add: Let_def)

lemma unread_skip_comment_less: "LastChar s \<noteq> EOF \<Longrightarrow> unread (skip_comment s) < unread s"
proof -
  assume ne: "LastChar s \<noteq> EOF"
  have "skip_comment s = skip_comment (advance s) \<or> skip_comment s = advance s"
    using skip_comment_unfold [of s] by metis
  then have "unread (skip_comment s) \<le> unread (advance s)"
    using unread_skip_comment [of "advance s"] by auto
  then show ?thesis using unread_advance_less [OF ne] by simp
qed

lemmas cclass = isspace_def isalpha_def isdigit_def isalnum_def isascii_def EOF_def

lemma gettok_ident:
  assumes "isalpha (LastChar (skip_space s0))"
  shows "gettok s0 =
     (let s = skip_space s0;
          s1 = read_ident (s\<lparr>IdentifierStr := [char_of (LastChar s)]\<rparr>) in
      if IdentifierStr s1 = ''def'' then (tok_def, s1)
      else if IdentifierStr s1 = ''extern'' then (tok_extern, s1)
      else (tok_identifier, s1))"
  using assms gettok.simps [of s0] by (simp add: Let_def)

lemma gettok_number:
  assumes "\<not> isalpha (LastChar (skip_space s0))"
    and "isdigit (LastChar (skip_space s0)) \<or> LastChar (skip_space s0) = of_char CHR ''.''"
  shows "gettok s0 =
     (case read_number [] (skip_space s0) of (NumStr, s1) \<Rightarrow> (tok_number, s1\<lparr>NumVal := NumStr\<rparr>))"
  using assms gettok.simps [of s0] by (simp add: Let_def)

lemma gettok_comment:
  assumes "LastChar (skip_space s0) = of_char CHR ''#''"
  shows "gettok s0 =
     (let s1 = skip_comment (skip_space s0) in
      if LastChar s1 \<noteq> EOF then gettok s1 else (tok_eof, s1))"
  using assms gettok.simps [of s0] by (simp add: Let_def cclass)

lemma gettok_eof:
  assumes "LastChar (skip_space s0) = EOF"
  shows "gettok s0 = (tok_eof, skip_space s0)"
  using assms gettok.simps [of s0] by (simp add: Let_def cclass)

lemma gettok_char:
  assumes "\<not> isalpha (LastChar (skip_space s0))" "\<not> isdigit (LastChar (skip_space s0))"
    and "LastChar (skip_space s0) \<noteq> of_char CHR ''.''"
    and "LastChar (skip_space s0) \<noteq> of_char CHR ''#''"
    and "LastChar (skip_space s0) \<noteq> EOF"
  shows "gettok s0 = (LastChar (skip_space s0), advance (skip_space s0))"
  using assms gettok.simps [of s0] by (simp add: Let_def)

lemma gettok_progress:
  "fst (gettok s0) \<noteq> tok_eof \<Longrightarrow> unread (snd (gettok s0)) < unread s0"
proof (induction s0 rule: gettok.induct)
  case (1 s0)
  let ?s = "skip_space s0"
  have le: "unread ?s \<le> unread s0" by (rule unread_skip_space)
  consider (ident) "isalpha (LastChar ?s)"
    | (number) "\<not> isalpha (LastChar ?s)"
        "isdigit (LastChar ?s) \<or> LastChar ?s = of_char CHR ''.''"
    | (comment) "LastChar ?s = of_char CHR ''#''"
    | (eof) "LastChar ?s = EOF"
    | (char) "\<not> isalpha (LastChar ?s)" "\<not> isdigit (LastChar ?s)"
        "LastChar ?s \<noteq> of_char CHR ''.''" "LastChar ?s \<noteq> of_char CHR ''#''"
        "LastChar ?s \<noteq> EOF"
    by blast
  then show ?case
  proof cases
    case ident
    then have ne: "LastChar (?s\<lparr>IdentifierStr := [char_of (LastChar ?s)]\<rparr>) \<noteq> EOF" by auto
    have "unread (read_ident (?s\<lparr>IdentifierStr := [char_of (LastChar ?s)]\<rparr>)) < unread ?s"
      using unread_read_ident [OF ne] by simp
    then show ?thesis using le by (simp add: gettok_ident [OF ident] Let_def)
  next
    case number
    then have ne: "LastChar ?s \<noteq> EOF" by (auto simp: EOF_def isdigit_def)
    obtain n1 s1 where rn: "read_number [] ?s = (n1, s1)" by (cases "read_number [] ?s")
    have "unread (snd (read_number [] ?s)) < unread ?s"
      using unread_read_number [OF ne] .
    then have "unread s1 < unread ?s" using rn by simp
    then show ?thesis using le by (simp add: gettok_number [OF number] rn)
  next
    case comment
    let ?s1 = "skip_comment ?s"
    have ne: "LastChar ?s \<noteq> EOF" using comment by (simp add: cclass)
    have less: "unread ?s1 < unread ?s" by (rule unread_skip_comment_less [OF ne])
    have eq: "gettok s0 = (if LastChar ?s1 \<noteq> EOF then gettok ?s1 else (tok_eof, ?s1))"
      using gettok_comment [OF comment] by (simp add: Let_def)
    with 1(2) have ne1: "LastChar ?s1 \<noteq> EOF" by (auto split: if_splits)
    have na: "\<not> isalpha (LastChar ?s)" and nd: "\<not> (isdigit (LastChar ?s) \<or> LastChar ?s = of_char CHR ''.'')"
      using comment by (simp_all add: cclass)
    have "unread (snd (gettok ?s1)) < unread ?s1"
      using 1(1) [OF refl na nd _ ] comment ne1 1(2) eq by simp
    then show ?thesis using eq ne1 less le by simp
  next
    case eof
    then show ?thesis using 1(2) by (simp add: gettok_eof)
  next
    case char
    then show ?thesis using le unread_advance_less [OF char(5)]
      by (simp add: gettok_char)
  qed
qed


section \<open>Parser\<close>

text \<open>\<^verbatim>\<open>static int getNextToken() { return CurTok = gettok(); }\<close>; the value returned is
  \<open>CurTok\<close> of the state returned.\<close>

definition getNextToken :: "state \<Rightarrow> state" where
  "getNextToken s = (let (t, s') = gettok s in s'\<lparr>CurTok := t\<rparr>)"

text \<open>
  \<^verbatim>\<open>BinopPrecedence\<close> as \<^verbatim>\<open>main\<close> fills it before the first token is read. A key that was
  never assigned reads as \<open>0\<close> (\<^verbatim>\<open>operator[]\<close> of \<^verbatim>\<open>std::map\<close> value-initialises it).
\<close>

definition BinopPrecedence :: "char \<Rightarrow> int" where
  "BinopPrecedence c =
     (if c = CHR ''<'' then 10
      else if c = CHR ''+'' then 20
      else if c = CHR ''-'' then 20
      else if c = CHR ''*'' then 40
      else 0)"

definition GetTokPrecedence :: "state \<Rightarrow> int" where
  "GetTokPrecedence s =
     (if \<not> isascii (CurTok s) then - 1
      else let TokPrec = BinopPrecedence (char_of (CurTok s)) in
        if TokPrec \<le> 0 then - 1 else TokPrec)"

definition fprintf :: "string \<Rightarrow> state \<Rightarrow> state" where
  "fprintf Str s = s\<lparr>stderr := stderr s @ [Str]\<rparr>"

text \<open>\<^verbatim>\<open>Error\<close>, \<^verbatim>\<open>ErrorP\<close>, \<^verbatim>\<open>ErrorF\<close> and \<^verbatim>\<open>ErrorV\<close> print the message; each caller returns the
  null pointer.\<close>

definition Error :: "string \<Rightarrow> state \<Rightarrow> state" where
  "Error Str s = fprintf (''Error: '' @ Str) s"

definition ParseNumberExpr :: "state \<Rightarrow> ExprAST option \<times> state" where
  "ParseNumberExpr s = (Some (NumberExprAST (NumVal s)), getNextToken s)"

text \<open>
  The expression parser is recursive through the token stream. Its functions take a bound
  on the depth of calls and loop iterations as their first argument; the outer \<open>None\<close> says
  that the bound was reached, \<open>Some (None, s)\<close> is the source's null pointer (a parse error)
  and \<open>Some (Some e, s)\<close> a tree. \<open>ParseArgs\<close> is the \<^verbatim>\<open>while (1)\<close> loop of
  \<^verbatim>\<open>ParseIdentifierExpr\<close>, and the loop of \<^verbatim>\<open>ParseBinOpRHS\<close> is its call of itself with the
  same \<open>ExprPrec\<close>.
\<close>

fun ParsePrimary :: "nat \<Rightarrow> state \<Rightarrow> (ExprAST option \<times> state) option"
  and ParseParenExpr :: "nat \<Rightarrow> state \<Rightarrow> (ExprAST option \<times> state) option"
  and ParseIdentifierExpr :: "nat \<Rightarrow> state \<Rightarrow> (ExprAST option \<times> state) option"
  and ParseArgs :: "nat \<Rightarrow> ExprAST list \<Rightarrow> state \<Rightarrow> (ExprAST list option \<times> state) option"
  and ParseBinOpRHS :: "nat \<Rightarrow> int \<Rightarrow> ExprAST \<Rightarrow> state \<Rightarrow> (ExprAST option \<times> state) option"
  and ParseExpression :: "nat \<Rightarrow> state \<Rightarrow> (ExprAST option \<times> state) option"
where
  "ParsePrimary 0 s = None"
| "ParsePrimary (Suc n) s =
     (if CurTok s = tok_identifier then ParseIdentifierExpr n s
      else if CurTok s = tok_number then Some (ParseNumberExpr s)
      else if CurTok s = of_char CHR ''('' then ParseParenExpr n s
      else Some (None, Error ''unknown token when expecting an expression'' s))"
| "ParseParenExpr 0 s = None"
| "ParseParenExpr (Suc n) s =
     (case ParseExpression n (getNextToken s) of
        None \<Rightarrow> None
      | Some (None, s1) \<Rightarrow> Some (None, s1)
      | Some (Some V, s1) \<Rightarrow>
          if CurTok s1 \<noteq> of_char CHR '')'' then Some (None, Error (''expected ')'' @ [CHR 0x27]) s1)
          else Some (Some V, getNextToken s1))"
| "ParseIdentifierExpr 0 s = None"
| "ParseIdentifierExpr (Suc n) s =
     (let IdName = IdentifierStr s;
          s1 = getNextToken s in
      if CurTok s1 \<noteq> of_char CHR ''('' then Some (Some (VariableExprAST IdName), s1)
      else
        let s2 = getNextToken s1 in
        if CurTok s2 \<noteq> of_char CHR '')'' then
          (case ParseArgs n [] s2 of
             None \<Rightarrow> None
           | Some (None, s3) \<Rightarrow> Some (None, s3)
           | Some (Some Args, s3) \<Rightarrow> Some (Some (CallExprAST IdName Args), getNextToken s3))
        else Some (Some (CallExprAST IdName []), getNextToken s2))"
| "ParseArgs 0 Args s = None"
| "ParseArgs (Suc n) Args s =
     (case ParseExpression n s of
        None \<Rightarrow> None
      | Some (None, s1) \<Rightarrow> Some (None, s1)
      | Some (Some Arg, s1) \<Rightarrow>
          if CurTok s1 = of_char CHR '')'' then Some (Some (Args @ [Arg]), s1)
          else if CurTok s1 \<noteq> of_char CHR '','' then
            Some (None, Error ''Expected ')' or ',' in argument list'' s1)
          else ParseArgs n (Args @ [Arg]) (getNextToken s1))"
| "ParseBinOpRHS 0 ExprPrec LHS s = None"
| "ParseBinOpRHS (Suc n) ExprPrec LHS s =
     (let TokPrec = GetTokPrecedence s in
      if TokPrec < ExprPrec then Some (Some LHS, s)
      else
        let BinOp = CurTok s in
        (case ParsePrimary n (getNextToken s) of
           None \<Rightarrow> None
         | Some (None, s2) \<Rightarrow> Some (None, s2)
         | Some (Some RHS, s2) \<Rightarrow>
             let NextPrec = GetTokPrecedence s2 in
             if TokPrec < NextPrec then
               (case ParseBinOpRHS n (TokPrec + 1) RHS s2 of
                  None \<Rightarrow> None
                | Some (None, s3) \<Rightarrow> Some (None, s3)
                | Some (Some RHS', s3) \<Rightarrow>
                    ParseBinOpRHS n ExprPrec (BinaryExprAST (char_of BinOp) LHS RHS') s3)
             else ParseBinOpRHS n ExprPrec (BinaryExprAST (char_of BinOp) LHS RHS) s2))"
| "ParseExpression 0 s = None"
| "ParseExpression (Suc n) s =
     (case ParsePrimary n s of
        None \<Rightarrow> None
      | Some (None, s1) \<Rightarrow> Some (None, s1)
      | Some (Some LHS, s1) \<Rightarrow> ParseBinOpRHS n 0 LHS s1)"

text \<open>\<^verbatim>\<open>while (getNextToken() == tok_identifier) ArgNames.push_back(IdentifierStr);\<close>\<close>

function ParsePrototype_args :: "string list \<Rightarrow> state \<Rightarrow> string list \<times> state" where
  "ParsePrototype_args ArgNames s =
     (let s1 = getNextToken s in
      if CurTok s1 = tok_identifier
      then ParsePrototype_args (ArgNames @ [IdentifierStr s1]) s1
      else (ArgNames, s1))"
  by pat_completeness auto
termination
proof (relation "measure (\<lambda>(a, s). unread s)")
  fix ArgNames :: "string list" and s s1 :: state
  assume "s1 = getNextToken s" "CurTok s1 = tok_identifier"
  then have "fst (gettok s) \<noteq> tok_eof" "unread s1 = unread (snd (gettok s))"
    by (auto simp: getNextToken_def tok_identifier_def tok_eof_def split: prod.splits)
  then show "((ArgNames @ [IdentifierStr s1], s1), (ArgNames, s)) \<in> measure (\<lambda>(a, s). unread s)"
    using gettok_progress [of s] by simp
qed simp

declare ParsePrototype_args.simps [simp del]

definition ParsePrototype :: "state \<Rightarrow> PrototypeAST option \<times> state" where
  "ParsePrototype s =
     (if CurTok s \<noteq> tok_identifier
      then (None, Error ''Expected function name in prototype'' s)
      else
        let FnName = IdentifierStr s;
            s1 = getNextToken s in
        if CurTok s1 \<noteq> of_char CHR ''(''
        then (None, Error ''Expected '(' in prototype'' s1)
        else
          let (ArgNames, s2) = ParsePrototype_args [] s1 in
          if CurTok s2 \<noteq> of_char CHR '')''
          then (None, Error ''Expected ')' in prototype'' s2)
          else (Some (PrototypeAST FnName ArgNames), getNextToken s2))"

definition ParseDefinition :: "nat \<Rightarrow> state \<Rightarrow> (FunctionAST option \<times> state) option" where
  "ParseDefinition n s =
     (case ParsePrototype (getNextToken s) of
        (None, s1) \<Rightarrow> Some (None, s1)
      | (Some Proto, s1) \<Rightarrow>
          (case ParseExpression n s1 of
             None \<Rightarrow> None
           | Some (None, s2) \<Rightarrow> Some (None, s2)
           | Some (Some E, s2) \<Rightarrow> Some (Some (FunctionAST Proto E), s2)))"

definition ParseTopLevelExpr :: "nat \<Rightarrow> state \<Rightarrow> (FunctionAST option \<times> state) option" where
  "ParseTopLevelExpr n s =
     (case ParseExpression n s of
        None \<Rightarrow> None
      | Some (None, s1) \<Rightarrow> Some (None, s1)
      | Some (Some E, s1) \<Rightarrow> Some (Some (FunctionAST (PrototypeAST [] []) E), s1))"

definition ParseExtern :: "state \<Rightarrow> PrototypeAST option \<times> state" where
  "ParseExtern s = ParsePrototype (getNextToken s)"

section \<open>Code generation\<close>

text \<open>
  The backend is LLVM; its module is modelled as far as the lowering reads and writes it.
  \<^verbatim>\<open>Module::getFunction\<close> finds a function by its name in the module's symbol table; a
  function without a name is not in that table.
\<close>

definition getFunction :: "Function list \<Rightarrow> string \<Rightarrow> Function option" where
  "getFunction M Name = (if Name = [] then None else find (\<lambda>F. fn_name F = Name) M)"

definition lookup_fn :: "Function list \<Rightarrow> nat \<Rightarrow> Function option" where
  "lookup_fn M f = find (\<lambda>F. fn_id F = f) M"

text \<open>\<^verbatim>\<open>F->eraseFromParent()\<close>\<close>

definition eraseFromParent :: "nat \<Rightarrow> state \<Rightarrow> state" where
  "eraseFromParent f s = s\<lparr>TheModule := filter (\<lambda>F. fn_id F \<noteq> f) (TheModule s)\<rparr>"

text \<open>\<^verbatim>\<open>BasicBlock::Create(getGlobalContext(), "entry", TheFunction)\<close>\<close>

definition BasicBlock_Create :: "string \<Rightarrow> nat \<Rightarrow> state \<Rightarrow> state" where
  "BasicBlock_Create Name f s =
     s\<lparr>TheModule := map (\<lambda>F. if fn_id F = f then F\<lparr>blocks := blocks F @ [Name]\<rparr> else F)
        (TheModule s)\<rparr>"

text \<open>\<^verbatim>\<open>Builder.CreateRet(RetVal)\<close> with the insertion point in the function \<open>f\<close>.\<close>

definition CreateRet :: "nat \<Rightarrow> Value \<Rightarrow> state \<Rightarrow> state" where
  "CreateRet f RetVal s =
     s\<lparr>TheModule := map (\<lambda>F. if fn_id F = f then F\<lparr>ret := Some RetVal\<rparr> else F) (TheModule s)\<rparr>"

text \<open>
  The methods \<^verbatim>\<open>Codegen\<close> of the expression nodes. \<open>Codegen_args\<close> is the loop of
  \<^verbatim>\<open>CallExprAST::Codegen\<close> over the arguments. Reading \<^verbatim>\<open>NamedValues[Name]\<close> for a name
  that has no entry adds an entry with the null pointer.
\<close>

fun Codegen :: "ExprAST \<Rightarrow> state \<Rightarrow> Value option \<times> state"
  and Codegen_args :: "ExprAST list \<Rightarrow> Value list \<Rightarrow> state \<Rightarrow> Value list option \<times> state"
where
  "Codegen (NumberExprAST Val) s = (Some (ConstantFP Val), s)"
| "Codegen (VariableExprAST Name) s =
     (case NamedValues s Name of
        Some (Some V) \<Rightarrow> (Some V, s)
      | Some None \<Rightarrow> (None, Error ''Unkown variable name'' s)
      | None \<Rightarrow>
          (None, Error ''Unkown variable name'' (s\<lparr>NamedValues := (NamedValues s)(Name \<mapsto> None)\<rparr>)))"
| "Codegen (BinaryExprAST Op LHS RHS) s =
     (let (L, s1) = Codegen LHS s;
          (R, s2) = Codegen RHS s1 in
      case (L, R) of
        (Some L', Some R') \<Rightarrow>
          if Op = CHR ''+'' then (Some (FAdd L' R'), s2)
          else if Op = CHR ''-'' then (Some (FSub L' R'), s2)
          else if Op = CHR ''*'' then (Some (FMul L' R'), s2)
          else if Op = CHR ''<'' then (Some (UIToFP (FCmpULT L' R')), s2)
          else (None, Error ''invalid binary operator'' s2)
      | _ \<Rightarrow> (None, s2))"
| "Codegen (CallExprAST Callee Args) s =
     (case getFunction (TheModule s) Callee of
        None \<Rightarrow> (None, Error ''unkown function referenced'' s)
      | Some CalleeF \<Rightarrow>
          if arg_size CalleeF \<noteq> length Args
          then (None, Error ''Incorrect # argmuments passed'' s)
          else
            (case Codegen_args Args [] s of
               (None, s1) \<Rightarrow> (None, s1)
             | (Some ArgsV, s1) \<Rightarrow> (Some (CallInst (fn_id CalleeF) ArgsV), s1)))"
| "Codegen_args [] ArgsV s = (Some ArgsV, s)"
| "Codegen_args (Arg # Args) ArgsV s =
     (case Codegen Arg s of
        (None, s1) \<Rightarrow> (None, s1)
      | (Some V, s1) \<Rightarrow> Codegen_args Args (ArgsV @ [V]) s1)"

text \<open>
  The loop of \<^verbatim>\<open>PrototypeAST::Codegen\<close> that binds the formal arguments of \<open>f\<close> in
  \<^verbatim>\<open>NamedValues\<close>, from index \<open>Idx\<close> on. (The names it gives to the backend's arguments are
  not modelled.)
\<close>

fun bind_args :: "nat \<Rightarrow> nat \<Rightarrow> string list \<Rightarrow> (string \<rightharpoonup> Value option) \<Rightarrow> (string \<rightharpoonup> Value option)" where
  "bind_args f Idx [] nv = nv"
| "bind_args f Idx (a # as) nv = bind_args f (Suc Idx) as (nv(a \<mapsto> Some (Argument f Idx)))"

text \<open>
  \<^verbatim>\<open>PrototypeAST::Codegen\<close>. \<^verbatim>\<open>Function::Create\<close> adds a function to the module and gives
  it the name asked for unless the module's symbol table has that name already, in which
  case the new function gets another name. The test \<^verbatim>\<open>F->getName() != Name\<close> therefore
  holds exactly when \<open>getFunction\<close> finds \<open>Name\<close> before the call; the source then erases
  the function just created and goes on with the one found. The result is the identity of
  the function, \<open>None\<close> for the null pointer.
\<close>

definition PrototypeAST_Codegen :: "PrototypeAST \<Rightarrow> state \<Rightarrow> nat option \<times> state" where
  "PrototypeAST_Codegen P s =
     (case P of PrototypeAST Name Args \<Rightarrow>
        (case getFunction (TheModule s) Name of
           None \<Rightarrow>
             let f = next_id s;
                 F = \<lparr>fn_id = f, fn_name = Name, arg_size = length Args, blocks = [], ret = None\<rparr>
             in (Some f, s\<lparr>TheModule := TheModule s @ [F], next_id := Suc f,
                           NamedValues := bind_args f 0 Args (NamedValues s)\<rparr>)
         | Some F \<Rightarrow>
             if blocks F \<noteq> [] then (None, Error ''redefinition of function'' s)
             else if arg_size F \<noteq> length Args
             then (None, Error ''redefinition of function with different # args'' s)
             else (Some (fn_id F),
                   s\<lparr>NamedValues := bind_args (fn_id F) 0 Args (NamedValues s)\<rparr>)))"

text \<open>\<^verbatim>\<open>FunctionAST::Codegen\<close>. \<^verbatim>\<open>verifyFunction\<close> changes nothing and its result is dropped.\<close>

definition FunctionAST_Codegen :: "FunctionAST \<Rightarrow> state \<Rightarrow> nat option \<times> state" where
  "FunctionAST_Codegen Fn s =
     (case Fn of FunctionAST Proto Body \<Rightarrow>
        (case PrototypeAST_Codegen Proto (s\<lparr>NamedValues := Map.empty\<rparr>) of
           (None, s1) \<Rightarrow> (None, s1)
         | (Some TheFunction, s1) \<Rightarrow>
             (case Codegen Body (BasicBlock_Create ''entry'' TheFunction s1) of
                (Some RetVal, s2) \<Rightarrow> (Some TheFunction, CreateRet TheFunction RetVal s2)
              | (None, s2) \<Rightarrow> (None, eraseFromParent TheFunction s2))))"

section \<open>Top-level parsing and driver\<close>

definition HandleDefinition :: "nat \<Rightarrow> state \<Rightarrow> state option" where
  "HandleDefinition n s =
     (case ParseDefinition n s of
        None \<Rightarrow> None
      | Some (Some FnAST, s1) \<Rightarrow>
          (case FunctionAST_Codegen FnAST s1 of
             (Some FnIR, s2) \<Rightarrow> Some (fprintf ''Parsed a function definition.'' s2)
           | (None, s2) \<Rightarrow> Some s2)
      | Some (None, s1) \<Rightarrow> Some (getNextToken s1))"

definition HandleExtern :: "state \<Rightarrow> state" where
  "HandleExtern s =
     (case ParseExtern s of
        (Some ProtoAST, s1) \<Rightarrow>
          (case PrototypeAST_Codegen ProtoAST s1 of
             (Some FnIR, s2) \<Rightarrow> fprintf ''Read extern: '' s2
           | (None, s2) \<Rightarrow> s2)
      | (None, s1) \<Rightarrow> getNextToken s1)"

definition HandleTopLevelExpression :: "nat \<Rightarrow> state \<Rightarrow> state option" where
  "HandleTopLevelExpression n s =
     (case ParseTopLevelExpr n s of
        None \<Rightarrow> None
      | Some (Some FnAST, s1) \<Rightarrow>
          (case FunctionAST_Codegen FnAST s1 of
             (Some FnIR, s2) \<Rightarrow> Some (fprintf ''Read a top-level expr: '' s2)
           | (None, s2) \<Rightarrow> Some s2)
      | Some (None, s1) \<Rightarrow> Some (getNextToken s1))"

text \<open>
  \<^verbatim>\<open>MainLoop\<close>: one top-level construct for each iteration. The first argument bounds the
  number of iterations and the depth of the expression parser; \<open>None\<close> says that the bound
  was reached, \<open>Some s\<close> that the loop returned at the end of the input.
\<close>

fun MainLoop :: "nat \<Rightarrow> state \<Rightarrow> state option" where
  "MainLoop 0 s = None"
| "MainLoop (Suc n) s0 =
     (let s = fprintf ''ready>'' s0 in
      if CurTok s = tok_eof then Some s
      else if CurTok s = of_char CHR '';'' then MainLoop n (getNextToken s)
      else if CurTok s = tok_def then
        (case HandleDefinition n s of None \<Rightarrow> None | Some s' \<Rightarrow> MainLoop n s')
      else if CurTok s = tok_extern then MainLoop n (HandleExtern s)
      else
        (case HandleTopLevelExpression n s of None \<Rightarrow> None | Some s' \<Rightarrow> MainLoop n s'))"

text \<open>The state in which \<^verbatim>\<open>main\<close> starts, with the given text on the standard input.\<close>

definition initial :: "string \<Rightarrow> state" where
  "initial inp =
     \<lparr>stdin = inp, stderr = [], LastChar = of_char CHR '' '', IdentifierStr = [], NumVal = [],
      CurTok = 0, NamedValues = Map.empty, TheModule = [], next_id = 0\<rparr>"

definition main :: "nat \<Rightarrow> string \<Rightarrow> state option" where
  "main n inp = MainLoop n (getNextToken (fprintf ''ready>'' (initial inp)))"

section \<open>Notions for stating the properties\<close>

text \<open>The five token codes of the enumeration \<^verbatim>\<open>Token\<close>, and the characters that no branch of
  \<^verbatim>\<open>gettok\<close> recognises.\<close>

definition is_token_code :: "int \<Rightarrow> bool" where
  "is_token_code t = (t = tok_eof \<or> t = tok_def \<or> t = tok_extern \<or> t = tok_identifier \<or> t = tok_number)"

definition unrecognized :: "int \<Rightarrow> bool" where
  "unrecognized c = (\<not> isspace c \<and> \<not> isalpha c \<and> \<not> isdigit c \<and> c \<noteq> of_char CHR ''.''
     \<and> c \<noteq> of_char CHR ''#'' \<and> c \<noteq> EOF)"

text \<open>The lexer's and parser's part of the state.\<close>

definition cursor :: "state \<Rightarrow> string \<times> int \<times> string \<times> double \<times> int" where
  "cursor s = (stdin s, LastChar s, IdentifierStr s, NumVal s, CurTok s)"

text \<open>The names of the variables that occur in an expression.\<close>

fun vars :: "ExprAST \<Rightarrow> string set" where
  "vars (NumberExprAST Val) = {}"
| "vars (VariableExprAST Name) = {Name}"
| "vars (BinaryExprAST Op LHS RHS) = vars LHS \<union> vars RHS"
| "vars (CallExprAST Callee Args) = (\<Union>a \<in> set Args. vars a)"

text \<open>The backend's part of the state, which the lexer never touches.\<close>

definition backend :: "state \<Rightarrow> string list \<times> (string \<rightharpoonup> Value option) \<times> Function list \<times> nat" where
  "backend s = (stderr s, NamedValues s, TheModule s, next_id s)"

text \<open>\<open>reads s w\<close>: the lookahead character and the unread input of \<open>s\<close> spell the text \<open>w\<close>.
  \<open>seek w s\<close> is \<open>s\<close> with its lookahead and input placed before the text \<open>w\<close>.\<close>

definition reads :: "state \<Rightarrow> string \<Rightarrow> bool" where
  "reads s w = (case w of [] \<Rightarrow> LastChar s = EOF \<and> stdin s = []
                | c # cs \<Rightarrow> LastChar s = of_char c \<and> stdin s = cs)"

definition seek :: "string \<Rightarrow> state \<Rightarrow> state" where
  "seek w s = s\<lparr>LastChar := (case w of [] \<Rightarrow> EOF | c # cs \<Rightarrow> of_char c), stdin := tl w\<rparr>"

text \<open>White space, identifiers and numerals as texts.\<close>

definition is_space_text :: "string \<Rightarrow> bool" where
  "is_space_text ws = list_all (\<lambda>c. isspace (of_char c)) ws"

definition starts_with :: "(int \<Rightarrow> bool) \<Rightarrow> string \<Rightarrow> bool" where
  "starts_with P w = (case w of [] \<Rightarrow> False | c # cs \<Rightarrow> P (of_char c))"

definition is_identifier :: "string \<Rightarrow> bool" where
  "is_identifier n = (starts_with isalpha n \<and> list_all (\<lambda>c. isalnum (of_char c)) n)"

definition is_numeral :: "string \<Rightarrow> bool" where
  "is_numeral l = (l \<noteq> [] \<and> list_all (\<lambda>c. isdigit (of_char c) \<or> c = CHR ''.'') l)"

definition num_char :: "int \<Rightarrow> bool" where
  "num_char c = (isdigit c \<or> c = of_char CHR ''.'')"

text \<open>\<open>strip w\<close>: the text \<open>w\<close> without the white space and the comments that it starts
  with. A comment goes from \<^verbatim>\<open>#\<close> up to the next line feed or carriage return, or to the
  end of the text.\<close>

function strip :: "string \<Rightarrow> string" where
  "strip [] = []"
| "strip (c # w) =
     (if isspace (of_char c) then strip w
      else if c = CHR ''#'' then strip (dropWhile (\<lambda>d. d \<noteq> CHR 0x0A \<and> d \<noteq> CHR 0x0D) w)
      else c # w)"
  by pat_completeness auto
termination
  by (relation "measure length") (simp_all add: length_dropWhile_le less_Suc_eq_le)

text \<open>The token that an identifier text gives.\<close>

definition keyword :: "string \<Rightarrow> int" where
  "keyword n = (if n = ''def'' then tok_def else if n = ''extern'' then tok_extern else tok_identifier)"

text \<open>A parameter list as a text: each name with the white space before it. Every name but
  the first needs white space before it, or it would be read as part of the name before.\<close>

fun spaced :: "(string \<times> string) list \<Rightarrow> string" where
  "spaced [] = []"
| "spaced ((ws, n) # ps) = ws @ n @ spaced ps"

fun params_ok :: "(string \<times> string) list \<Rightarrow> bool" where
  "params_ok [] = True"
| "params_ok ((ws, n) # ps) =
     (is_space_text ws \<and> is_identifier n \<and> keyword n = tok_identifier
      \<and> (ps = [] \<or> fst (hd ps) \<noteq> []) \<and> params_ok ps)"

text \<open>
  The conventional grammar of expressions over numerals, \<^verbatim>\<open>+ - * <\<close> and parentheses, with
  the tree that each text denotes: \<^verbatim>\<open>*\<close> binds tighter than \<^verbatim>\<open>+\<close> and \<^verbatim>\<open>-\<close>, these bind
  tighter than \<^verbatim>\<open><\<close>, and every operator groups to the left (its left operand is of its own
  level, its right operand of the next level).
\<close>

inductive primary :: "string \<Rightarrow> ExprAST \<Rightarrow> bool"
  and product :: "string \<Rightarrow> ExprAST \<Rightarrow> bool"
  and summation :: "string \<Rightarrow> ExprAST \<Rightarrow> bool"
  and comparison :: "string \<Rightarrow> ExprAST \<Rightarrow> bool"
where
  number: "is_numeral l \<Longrightarrow> primary l (NumberExprAST l)"
| parens: "comparison w e \<Longrightarrow> primary (''('' @ w @ '')'') e"
| product_primary: "primary w e \<Longrightarrow> product w e"
| times: "product w1 e1 \<Longrightarrow> primary w2 e2
    \<Longrightarrow> product (w1 @ ''*'' @ w2) (BinaryExprAST CHR ''*'' e1 e2)"
| summation_product: "product w e \<Longrightarrow> summation w e"
| plus: "summation w1 e1 \<Longrightarrow> product w2 e2
    \<Longrightarrow> summation (w1 @ ''+'' @ w2) (BinaryExprAST CHR ''+'' e1 e2)"
| minus: "summation w1 e1 \<Longrightarrow> product w2 e2
    \<Longrightarrow> summation (w1 @ ''-'' @ w2) (BinaryExprAST CHR ''-'' e1 e2)"
| comparison_summation: "summation w e \<Longrightarrow> comparison w e"
| less: "comparison w1 e1 \<Longrightarrow> summation w2 e2
    \<Longrightarrow> comparison (w1 @ ''<'' @ w2) (BinaryExprAST CHR ''<'' e1 e2)"

text \<open>The four binary operators of the default table.\<close>

definition is_binop :: "char \<Rightarrow> bool" where
  "is_binop c = (c = CHR ''<'' \<or> c = CHR ''+'' \<or> c = CHR ''-'' \<or> c = CHR ''*'')"

text \<open>
  The same language as the loop of \<^verbatim>\<open>ParseBinOpRHS\<close> reads it: a primary expression, then
  a chain of operators and operands that is folded to the left. \<open>chain lo hi lhs w e\<close>: from
  the tree \<open>lhs\<close> the text \<open>w\<close> folds to \<open>e\<close>, every operator of the chain has a precedence
  of at least \<open>lo\<close>, the first one of at most \<open>hi\<close>, each further one of at most that of the
  operator before it, and the operand of an operator is a primary expression with a
  chain of operators of higher precedence.
\<close>

inductive atom :: "string \<Rightarrow> ExprAST \<Rightarrow> bool"
  and chain :: "int \<Rightarrow> int \<Rightarrow> ExprAST \<Rightarrow> string \<Rightarrow> ExprAST \<Rightarrow> bool"
where
  atom_number: "is_numeral l \<Longrightarrow> atom l (NumberExprAST l)"
| atom_parens: "atom wa a \<Longrightarrow> chain 0 40 a w e \<Longrightarrow> atom (''('' @ wa @ w @ '')'') e"
| chain_end: "chain lo hi lhs [] lhs"
| chain_step: "is_binop c \<Longrightarrow> lo \<le> BinopPrecedence c \<Longrightarrow> BinopPrecedence c \<le> hi
    \<Longrightarrow> atom wa a \<Longrightarrow> chain (BinopPrecedence c + 1) 40 a w1 r
    \<Longrightarrow> chain lo (BinopPrecedence c) (BinaryExprAST c lhs r) w2 e
    \<Longrightarrow> chain lo hi lhs (c # wa @ w1 @ w2) e"

text \<open>An operand: a primary expression with a chain of operators of precedence \<open>lo\<close> or more.\<close>

definition operand :: "int \<Rightarrow> string \<Rightarrow> ExprAST \<Rightarrow> bool" where
  "operand lo w e = (\<exists>wa a w'. w = wa @ w' \<and> atom wa a \<and> chain lo 40 a w' e)"

text \<open>\<open>cur_at s w\<close>: the current token of \<open>s\<close> is the first token of the text \<open>w\<close>, and the
  lexer of \<open>s\<close> stands behind that token.\<close>

definition cur_at :: "state \<Rightarrow> string \<Rightarrow> bool" where
  "cur_at s w = (\<exists>s0. reads s0 w \<and> s = getNextToken s0)"

text \<open>\<open>follows lo T\<close>: the text \<open>T\<close> can follow an operand of a chain of precedence \<open>lo\<close>: it
  does not continue a numeral, and its first token is no operator of precedence \<open>lo\<close> or
  more.\<close>

definition follows :: "int \<Rightarrow> string \<Rightarrow> bool" where
  "follows lo T = (\<not> starts_with num_char T \<and> (\<forall>s. cur_at s T \<longrightarrow> GetTokPrecedence s < lo))"

text \<open>\<open>yields f s e T\<close>: with a bound that is large enough, \<open>f\<close> returns the tree \<open>e\<close> from the
  state \<open>s\<close>, prints nothing, and leaves the text \<open>T\<close> to read.\<close>

definition yields :: "(nat \<Rightarrow> state \<Rightarrow> (ExprAST option \<times> state) option) \<Rightarrow> state \<Rightarrow> ExprAST \<Rightarrow> string \<Rightarrow> bool" where
  "yields f s e T =
     (\<exists>N s'. cur_at s' T \<and> backend s' = backend s \<and> (\<forall>n\<ge>N. f n s = Some (Some e, s')))"

section \<open>Properties of the lexer\<close>

lemma skip_space_id: "\<not> isspace (LastChar s) \<Longrightarrow> skip_space s = s"
  by (subst skip_space.simps) simp

lemma skip_space_not_space: "\<not> isspace (LastChar (skip_space s))"
proof (induction s rule: skip_space.induct)
  case (1 s)
  then show ?case by (subst skip_space.simps) auto
qed

lemma gettok_class: "is_token_code (fst (gettok s0)) \<or> unrecognized (fst (gettok s0))"
proof (induction s0 rule: gettok.induct)
  case (1 s0)
  let ?s = "skip_space s0"
  consider (ident) "isalpha (LastChar ?s)"
    | (number) "\<not> isalpha (LastChar ?s)"
        "isdigit (LastChar ?s) \<or> LastChar ?s = of_char CHR ''.''"
    | (comment) "LastChar ?s = of_char CHR ''#''"
    | (eof) "LastChar ?s = EOF"
    | (char) "\<not> isalpha (LastChar ?s)" "\<not> isdigit (LastChar ?s)"
        "LastChar ?s \<noteq> of_char CHR ''.''" "LastChar ?s \<noteq> of_char CHR ''#''"
        "LastChar ?s \<noteq> EOF"
    by blast
  then show ?case
  proof cases
    case ident
    then show ?thesis by (simp add: gettok_ident Let_def is_token_code_def)
  next
    case number
    then show ?thesis by (simp add: gettok_number is_token_code_def split: prod.splits)
  next
    case comment
    let ?s1 = "skip_comment ?s"
    have na: "\<not> isalpha (LastChar ?s)"
      and nd: "\<not> (isdigit (LastChar ?s) \<or> LastChar ?s = of_char CHR ''.'')"
      using comment by (simp_all add: cclass)
    show ?thesis
    proof (cases "LastChar ?s1 = EOF")
      case True
      then show ?thesis by (simp add: gettok_comment [OF comment] Let_def is_token_code_def)
    next
      case False
      then have "gettok s0 = gettok ?s1" by (simp add: gettok_comment [OF comment] Let_def)
      then show ?thesis using 1 [OF refl na nd _] comment False by simp
    qed
  next
    case eof
    then show ?thesis by (simp add: gettok_eof is_token_code_def)
  next
    case char
    then show ?thesis using skip_space_not_space [of s0]
      by (simp add: gettok_char unrecognized_def)
  qed
qed

text \<open>The equations that evaluate the lexer on a given input.\<close>

lemmas lex_eval = skip_space.simps read_ident.simps read_number.simps skip_comment.simps
  gettok.simps getNextToken_def advance_def getchar_def cclass
  tok_eof_def tok_def_def tok_extern_def tok_identifier_def tok_number_def initial_def
  char_of_eq_iff Let_def fprintf_def Error_def

section \<open>Properties of the lowering\<close>

text \<open>What the lowering of an expression leaves unchanged.\<close>

lemma fprintf_fields [simp]:
  "stdin (fprintf m s) = stdin s" "LastChar (fprintf m s) = LastChar s"
  "IdentifierStr (fprintf m s) = IdentifierStr s" "NumVal (fprintf m s) = NumVal s"
  "CurTok (fprintf m s) = CurTok s" "NamedValues (fprintf m s) = NamedValues s"
  "TheModule (fprintf m s) = TheModule s" "next_id (fprintf m s) = next_id s"
  "stderr (fprintf m s) = stderr s @ [m]"
  by (simp_all add: fprintf_def)

lemma Error_fields [simp]:
  "stdin (Error m s) = stdin s" "LastChar (Error m s) = LastChar s"
  "IdentifierStr (Error m s) = IdentifierStr s" "NumVal (Error m s) = NumVal s"
  "CurTok (Error m s) = CurTok s" "NamedValues (Error m s) = NamedValues s"
  "TheModule (Error m s) = TheModule s" "next_id (Error m s) = next_id s"
  "stderr (Error m s) = stderr s @ [''Error: '' @ m]"
  by (simp_all add: Error_def)

lemma cursor_simps [simp]:
  "cursor (fprintf m s) = cursor s" "cursor (Error m s) = cursor s"
  "cursor (s\<lparr>NamedValues := nv\<rparr>) = cursor s"
  "cursor (s\<lparr>TheModule := M\<rparr>) = cursor s"
  "cursor (s\<lparr>next_id := k\<rparr>) = cursor s"
  by (simp_all add: cursor_def)

lemma Codegen_frame:
  "Codegen e s = (r, s') \<Longrightarrow>
     cursor s' = cursor s \<and> TheModule s' = TheModule s \<and> next_id s' = next_id s"
  "Codegen_args es acc s = (rs, s') \<Longrightarrow>
     cursor s' = cursor s \<and> TheModule s' = TheModule s \<and> next_id s' = next_id s"
proof (induction e s and es acc s arbitrary: r s' and rs s' rule: Codegen_Codegen_args.induct)
  case (1 Val s)
  then show ?case by auto
next
  case (2 Name s)
  then show ?case by (auto split: option.splits)
next
  case (3 Op LHS RHS s)
  obtain L s1 where l: "Codegen LHS s = (L, s1)" by (cases "Codegen LHS s")
  obtain R s2 where r: "Codegen RHS s1 = (R, s2)" by (cases "Codegen RHS s1")
  have "cursor s1 = cursor s \<and> TheModule s1 = TheModule s \<and> next_id s1 = next_id s"
    using 3(1) [OF l] .
  moreover have "cursor s2 = cursor s1 \<and> TheModule s2 = TheModule s1 \<and> next_id s2 = next_id s1"
    using 3(2) [OF l [symmetric] refl r] .
  moreover have "cursor s' = cursor s2 \<and> TheModule s' = TheModule s2 \<and> next_id s' = next_id s2"
    using 3(3) l r by (auto split: option.splits if_splits)
  ultimately show ?case by simp
next
  case (4 Callee Args s)
  show ?case
  proof (cases "getFunction (TheModule s) Callee")
    case None
    then show ?thesis using 4(2) by auto
  next
    case (Some F)
    show ?thesis
    proof (cases "arg_size F \<noteq> length Args")
      case True
      then show ?thesis using 4(2) Some by auto
    next
      case False
      obtain rs s1 where a: "Codegen_args Args [] s = (rs, s1)" by (cases "Codegen_args Args [] s")
      have "cursor s1 = cursor s \<and> TheModule s1 = TheModule s \<and> next_id s1 = next_id s"
        using 4(1) [OF Some False a] .
      moreover have "s' = s1" using 4(2) Some False a by (auto split: option.splits)
      ultimately show ?thesis by simp
    qed
  qed
next
  case (5 ArgsV s)
  then show ?case by auto
next
  case (6 Arg Args ArgsV s)
  obtain v s1 where a: "Codegen Arg s = (v, s1)" by (cases "Codegen Arg s")
  have f1: "cursor s1 = cursor s \<and> TheModule s1 = TheModule s \<and> next_id s1 = next_id s"
    using 6(1) [OF a] .
  show ?case
  proof (cases v)
    case None
    then have "s' = s1" using 6(3) a by simp
    then show ?thesis using f1 by simp
  next
    case (Some V)
    then have "Codegen_args Args (ArgsV @ [V]) s1 = (rs, s')" using 6(3) a by simp
    then have "cursor s' = cursor s1 \<and> TheModule s' = TheModule s1 \<and> next_id s' = next_id s1"
      using 6(2) [OF a [symmetric] Some] by simp
    then show ?thesis using f1 by simp
  qed
qed

lemma Codegen_Some_same:
  "Codegen e s = (Some v, s') \<Longrightarrow> s' = s"
  "Codegen_args es acc s = (Some vs, s') \<Longrightarrow> s' = s"
proof (induction e s and es acc s arbitrary: v s' and vs s' rule: Codegen_Codegen_args.induct)
  case (1 Val s)
  then show ?case by auto
next
  case (2 Name s)
  then show ?case by (auto split: option.splits)
next
  case (3 Op LHS RHS s)
  obtain L s1 where l: "Codegen LHS s = (L, s1)" by (cases "Codegen LHS s")
  obtain R s2 where r: "Codegen RHS s1 = (R, s2)" by (cases "Codegen RHS s1")
  from 3(3) l r obtain L' R' where lr: "L = Some L'" "R = Some R'"
    by (cases L; cases R) auto
  have "s1 = s" using 3(1) l lr by simp
  moreover have "s2 = s1" using 3(2) [OF l [symmetric] refl] r lr by simp
  moreover have "s' = s2" using 3(3) l r lr by (auto split: if_splits)
  ultimately show ?case by simp
next
  case (4 Callee Args s)
  show ?case
  proof (cases "getFunction (TheModule s) Callee")
    case None
    then show ?thesis using 4(2) by auto
  next
    case (Some F)
    show ?thesis
    proof (cases "arg_size F \<noteq> length Args")
      case True
      then show ?thesis using 4(2) Some by auto
    next
      case False
      obtain rs s1 where a: "Codegen_args Args [] s = (rs, s1)" by (cases "Codegen_args Args [] s")
      from 4(2) Some False a obtain vs where "rs = Some vs" "s' = s1" by (cases rs) auto
      then show ?thesis using 4(1) [OF Some False] a by simp
    qed
  qed
next
  case (5 ArgsV s)
  then show ?case by auto
next
  case (6 Arg Args ArgsV s)
  obtain v s1 where a: "Codegen Arg s = (v, s1)" by (cases "Codegen Arg s")
  from 6(3) a obtain V where V: "v = Some V" by (cases v) auto
  then have "s1 = s" using 6(1) a by simp
  moreover have "s' = s1" using 6(2) [OF a [symmetric] V] 6(3) a V by simp
  ultimately show ?case by simp
qed

lemma Codegen_Some_vars:
  "Codegen e s = (Some v, s') \<Longrightarrow> x \<in> vars e \<Longrightarrow> \<exists>V. NamedValues s x = Some (Some V)"
  "Codegen_args es acc s = (Some vs, s') \<Longrightarrow> a \<in> set es \<Longrightarrow> x \<in> vars a
     \<Longrightarrow> \<exists>V. NamedValues s x = Some (Some V)"
proof (induction e s and es acc s arbitrary: v s' and vs s' a rule: Codegen_Codegen_args.induct)
  case (1 Val s)
  then show ?case by auto
next
  case (2 Name s)
  then show ?case by (auto split: option.splits)
next
  case (3 Op LHS RHS s)
  obtain L s1 where l: "Codegen LHS s = (L, s1)" by (cases "Codegen LHS s")
  obtain R s2 where r: "Codegen RHS s1 = (R, s2)" by (cases "Codegen RHS s1")
  from 3(3) l r obtain L' R' where lr: "L = Some L'" "R = Some R'"
    by (cases L; cases R) auto
  have s1: "s1 = s" using Codegen_Some_same(1) l lr by simp
  from 3(4) consider "x \<in> vars LHS" | "x \<in> vars RHS" by auto
  then show ?case
  proof cases
    case 1
    then show ?thesis using 3(1) l lr by simp
  next
    case 2
    then show ?thesis using 3(2) [OF l [symmetric] refl] r lr s1 by simp
  qed
next
  case (4 Callee Args s)
  show ?case
  proof (cases "getFunction (TheModule s) Callee")
    case None
    then show ?thesis using 4(2) by auto
  next
    case (Some F)
    show ?thesis
    proof (cases "arg_size F \<noteq> length Args")
      case True
      then show ?thesis using 4(2) Some by auto
    next
      case False
      obtain rs s1 where a: "Codegen_args Args [] s = (rs, s1)" by (cases "Codegen_args Args [] s")
      from 4(2) Some False a obtain vs where vs: "rs = Some vs" by (cases rs) auto
      from 4(3) obtain b where "b \<in> set Args" "x \<in> vars b" by auto
      then show ?thesis using 4(1) [OF Some False] a vs by simp
    qed
  qed
next
  case (5 ArgsV s)
  then show ?case by auto
next
  case (6 Arg Args ArgsV s)
  obtain v s1 where c: "Codegen Arg s = (v, s1)" by (cases "Codegen Arg s")
  from 6(3) c obtain V where V: "v = Some V" by (cases v) auto
  have s1: "s1 = s" using Codegen_Some_same(1) c V by simp
  have rest: "Codegen_args Args (ArgsV @ [V]) s1 = (Some vs, s')" using 6(3) c V by simp
  from 6(4) consider "a = Arg" | "a \<in> set Args" by auto
  then show ?case
  proof cases
    case 1
    then show ?thesis using 6(1) c V 6(5) by simp
  next
    case 2
    then show ?thesis using 6(2) [OF c [symmetric] V rest 2 6(5)] s1 by simp
  qed
qed

text \<open>A failed lowering can only add null entries to the symbol scope.\<close>

lemma Codegen_NamedValues:
  "Codegen e s = (r, s') \<Longrightarrow> NamedValues s' x = Some (Some V) \<Longrightarrow> NamedValues s x = Some (Some V)"
  "Codegen_args es acc s = (rs, s') \<Longrightarrow> NamedValues s' x = Some (Some V)
     \<Longrightarrow> NamedValues s x = Some (Some V)"
proof (induction e s and es acc s arbitrary: r s' and rs s' rule: Codegen_Codegen_args.induct)
  case (1 Val s)
  then show ?case by auto
next
  case (2 Name s)
  then show ?case by (auto split: option.splits if_splits)
next
  case (3 Op LHS RHS s)
  obtain L s1 where l: "Codegen LHS s = (L, s1)" by (cases "Codegen LHS s")
  obtain R s2 where r: "Codegen RHS s1 = (R, s2)" by (cases "Codegen RHS s1")
  have "NamedValues s' = NamedValues s2"
    using 3(3) l r by (auto split: option.splits if_splits)
  then have "NamedValues s1 x = Some (Some V)"
    using 3(2) [OF l [symmetric] refl r] 3(4) by simp
  then show ?case using 3(1) [OF l] by simp
next
  case (4 Callee Args s)
  show ?case
  proof (cases "getFunction (TheModule s) Callee")
    case None
    then show ?thesis using 4(2,3) by auto
  next
    case (Some F)
    show ?thesis
    proof (cases "arg_size F \<noteq> length Args")
      case True
      then show ?thesis using 4(2,3) Some by auto
    next
      case False
      obtain rs s1 where a: "Codegen_args Args [] s = (rs, s1)" by (cases "Codegen_args Args [] s")
      have "s' = s1" using 4(2) Some False a by (auto split: option.splits)
      then show ?thesis using 4(1) [OF Some False a] 4(3) by simp
    qed
  qed
next
  case (5 ArgsV s)
  then show ?case by auto
next
  case (6 Arg Args ArgsV s)
  obtain v s1 where a: "Codegen Arg s = (v, s1)" by (cases "Codegen Arg s")
  show ?case
  proof (cases v)
    case None
    then have "s' = s1" using 6(3) a by simp
    then show ?thesis using 6(1) [OF a] 6(4) by simp
  next
    case (Some V')
    then have "Codegen_args Args (ArgsV @ [V']) s1 = (rs, s')" using 6(3) a by simp
    then have "NamedValues s1 x = Some (Some V)"
      using 6(2) [OF a [symmetric] Some] 6(4) by simp
    then show ?thesis using 6(1) [OF a] by simp
  qed
qed

lemma bind_args_notin: "x \<notin> set as \<Longrightarrow> bind_args f i as nv x = nv x"
  by (induction as arbitrary: i nv) auto

lemma bind_args_in:
  "x \<in> set as \<Longrightarrow> \<exists>j. i \<le> j \<and> j < i + length as \<and> bind_args f i as nv x = Some (Some (Argument f j))"
proof (induction as arbitrary: i nv)
  case Nil
  then show ?case by simp
next
  case (Cons a as)
  show ?case
  proof (cases "x \<in> set as")
    case True
    from Cons.IH [OF True, of "Suc i" "nv(a \<mapsto> Some (Argument f i))"]
    obtain j where "Suc i \<le> j" "j < Suc i + length as"
      "bind_args f (Suc i) as (nv(a \<mapsto> Some (Argument f i))) x = Some (Some (Argument f j))"
      by blast
    then show ?thesis by (intro exI [of _ j]) simp
  next
    case False
    with Cons.prems have "x = a" by simp
    then show ?thesis using False by (intro exI [of _ i]) (simp add: bind_args_notin)
  qed
qed

lemma bind_args_dom: "dom (bind_args f i as nv) = dom nv \<union> set as"
  by (induction as arbitrary: i nv) auto

lemma bind_args_indep:
  "x \<in> set as \<Longrightarrow> bind_args f i as nv x = bind_args f i as nv' x"
proof (induction as arbitrary: i nv nv')
  case Nil
  then show ?case by simp
next
  case (Cons a as)
  show ?case
  proof (cases "x \<in> set as")
    case True
    then show ?thesis using Cons.IH by simp
  next
    case False
    with Cons.prems have "x = a" by simp
    then show ?thesis using False by (simp add: bind_args_notin)
  qed
qed

lemma bind_args_idem: "bind_args f i as (bind_args f i as nv) = bind_args f i as nv"
proof
  fix x
  show "bind_args f i as (bind_args f i as nv) x = bind_args f i as nv x"
  proof (cases "x \<in> set as")
    case True
    then show ?thesis by (rule bind_args_indep)
  next
    case False
    then show ?thesis by (simp add: bind_args_notin)
  qed
qed

lemma backend_simps [simp]:
  "backend (s\<lparr>LastChar := c\<rparr>) = backend s" "backend (s\<lparr>stdin := i\<rparr>) = backend s"
  "backend (s\<lparr>IdentifierStr := n\<rparr>) = backend s" "backend (s\<lparr>NumVal := v\<rparr>) = backend s"
  "backend (s\<lparr>CurTok := t\<rparr>) = backend s"
  by (simp_all add: backend_def)

lemma backend_advance [simp]: "backend (advance s) = backend s"
  by (simp add: advance_def getchar_def split: list.splits)

lemma backend_skip_space [simp]: "backend (skip_space s) = backend s"
proof (induction s rule: skip_space.induct)
  case (1 s)
  then show ?case by (subst skip_space.simps) auto
qed

lemma backend_read_ident [simp]: "backend (read_ident s) = backend s"
proof (induction s rule: read_ident.induct)
  case (1 s)
  show ?case
  proof (cases "isalnum (LastChar (advance s))")
    case True
    then show ?thesis using 1 [OF refl True] read_ident.simps [of s] by (simp add: Let_def)
  next
    case False
    then show ?thesis using read_ident.simps [of s] by (simp add: Let_def)
  qed
qed

lemma backend_read_number [simp]: "backend (snd (read_number n s)) = backend s"
proof (induction n s rule: read_number.induct)
  case (1 NumStr s)
  show ?case
  proof (cases "isdigit (LastChar (advance s)) \<or> LastChar (advance s) = of_char CHR ''.''")
    case True
    then show ?thesis using 1 [OF refl refl True] read_number.simps [of NumStr s]
      by (simp add: Let_def)
  next
    case False
    then show ?thesis using read_number.simps [of NumStr s] by (simp add: Let_def)
  qed
qed

lemma backend_skip_comment [simp]: "backend (skip_comment s) = backend s"
proof (induction s rule: skip_comment.induct)
  case (1 s)
  show ?case
  proof (cases "LastChar (advance s) \<noteq> EOF \<and> LastChar (advance s) \<noteq> of_char CHR 0x0A
      \<and> LastChar (advance s) \<noteq> of_char CHR 0x0D")
    case True
    then show ?thesis using 1 [OF refl True] skip_comment_unfold [of s] by simp
  next
    case False
    then show ?thesis using skip_comment_unfold [of s] by auto
  qed
qed

lemma backend_gettok [simp]: "backend (snd (gettok s0)) = backend s0"
proof (induction s0 rule: gettok.induct)
  case (1 s0)
  let ?s = "skip_space s0"
  consider (ident) "isalpha (LastChar ?s)"
    | (number) "\<not> isalpha (LastChar ?s)"
        "isdigit (LastChar ?s) \<or> LastChar ?s = of_char CHR ''.''"
    | (comment) "LastChar ?s = of_char CHR ''#''"
    | (eof) "LastChar ?s = EOF"
    | (char) "\<not> isalpha (LastChar ?s)" "\<not> isdigit (LastChar ?s)"
        "LastChar ?s \<noteq> of_char CHR ''.''" "LastChar ?s \<noteq> of_char CHR ''#''"
        "LastChar ?s \<noteq> EOF"
    by blast
  then show ?case
  proof cases
    case ident
    then show ?thesis by (simp add: gettok_ident Let_def)
  next
    case number
    obtain n1 s1 where rn: "read_number [] ?s = (n1, s1)" by (cases "read_number [] ?s")
    then have "backend s1 = backend ?s" using backend_read_number [of "[]" ?s] by simp
    then show ?thesis using number rn by (simp add: gettok_number)
  next
    case comment
    let ?s1 = "skip_comment ?s"
    have na: "\<not> isalpha (LastChar ?s)"
      and nd: "\<not> (isdigit (LastChar ?s) \<or> LastChar ?s = of_char CHR ''.'')"
      using comment by (simp_all add: cclass)
    show ?thesis
    proof (cases "LastChar ?s1 = EOF")
      case True
      then show ?thesis by (simp add: gettok_comment [OF comment] Let_def)
    next
      case False
      then have "gettok s0 = gettok ?s1" by (simp add: gettok_comment [OF comment] Let_def)
      then show ?thesis using 1 [OF refl na nd _] comment False by simp
    qed
  next
    case eof
    then show ?thesis by (simp add: gettok_eof)
  next
    case char
    then show ?thesis by (simp add: gettok_char)
  qed
qed

lemma backend_getNextToken [simp]: "backend (getNextToken s) = backend s"
proof -
  obtain t s1 where g: "gettok s = (t, s1)" by (cases "gettok s")
  then have "backend s1 = backend s" using backend_gettok [of s] by simp
  then show ?thesis using g by (simp add: getNextToken_def)
qed

lemma backend_ParsePrototype_args [simp]: "backend (snd (ParsePrototype_args a s)) = backend s"
proof (induction a s rule: ParsePrototype_args.induct)
  case (1 ArgNames s)
  show ?case
  proof (cases "CurTok (getNextToken s) = tok_identifier")
    case True
    then show ?thesis using 1 [OF refl True] ParsePrototype_args.simps [of ArgNames s]
      by (simp add: Let_def)
  next
    case False
    then show ?thesis using ParsePrototype_args.simps [of ArgNames s] by (simp add: Let_def)
  qed
qed

lemma backend_fields:
  "backend s' = backend s \<Longrightarrow>
     stderr s' = stderr s \<and> NamedValues s' = NamedValues s \<and> TheModule s' = TheModule s
     \<and> next_id s' = next_id s"
  by (simp add: backend_def)

lemma ParsePrototype_frame:
  "NamedValues (snd (ParsePrototype s)) = NamedValues s
   \<and> TheModule (snd (ParsePrototype s)) = TheModule s
   \<and> next_id (snd (ParsePrototype s)) = next_id s"
proof -
  obtain a s2 where pa: "ParsePrototype_args [] (getNextToken s) = (a, s2)"
    by (cases "ParsePrototype_args [] (getNextToken s)")
  have "backend s2 = backend s"
    using backend_ParsePrototype_args [of "[]" "getNextToken s"] pa by simp
  moreover have "backend (getNextToken s2) = backend s2" by simp
  moreover have "backend (getNextToken s) = backend s" by simp
  ultimately show ?thesis
    using pa by (simp add: ParsePrototype_def Let_def backend_def)
qed

lemmas cg_eval = PrototypeAST_Codegen_def FunctionAST_Codegen_def getFunction_def lookup_fn_def
  eraseFromParent_def BasicBlock_Create_def CreateRet_def Error_def fprintf_def initial_def Let_def

text \<open>
  C6. Lowering a call of a name that the module does not know fails with the message
  \<^verbatim>\<open>unkown function referenced\<close> (the spelling of the source); a call of a known function
  with a number of arguments other than the function's fails with the different message
  \<^verbatim>\<open>Incorrect # argmuments passed\<close>; and a call lowers only if the callee is known and the
  numbers agree.
\<close>

theorem call_errors:
  "(getFunction (TheModule s) Callee = None \<longrightarrow>
      Codegen (CallExprAST Callee Args) s = (None, Error ''unkown function referenced'' s))
   \<and> (\<forall>CalleeF. getFunction (TheModule s) Callee = Some CalleeF \<and> arg_size CalleeF \<noteq> length Args \<longrightarrow>
      Codegen (CallExprAST Callee Args) s = (None, Error ''Incorrect # argmuments passed'' s))
   \<and> (fst (Codegen (CallExprAST Callee Args) s) \<noteq> None \<longrightarrow>
      (\<exists>CalleeF. getFunction (TheModule s) Callee = Some CalleeF \<and> arg_size CalleeF = length Args))
   \<and> stderr (Error ''unkown function referenced'' s) \<noteq> stderr (Error ''Incorrect # argmuments passed'' s)"
proof (intro conjI impI allI)
  assume "getFunction (TheModule s) Callee = None"
  then show "Codegen (CallExprAST Callee Args) s = (None, Error ''unkown function referenced'' s)"
    by simp
next
  fix CalleeF
  assume "getFunction (TheModule s) Callee = Some CalleeF \<and> arg_size CalleeF \<noteq> length Args"
  then show "Codegen (CallExprAST Callee Args) s = (None, Error ''Incorrect # argmuments passed'' s)"
    by simp
next
  assume ok: "fst (Codegen (CallExprAST Callee Args) s) \<noteq> None"
  show "\<exists>CalleeF. getFunction (TheModule s) Callee = Some CalleeF \<and> arg_size CalleeF = length Args"
  proof (cases "getFunction (TheModule s) Callee")
    case None
    then show ?thesis using ok by simp
  next
    case (Some F)
    then show ?thesis using ok by (cases "arg_size F = length Args") auto
  qed
next
  show "stderr (Error ''unkown function referenced'' s) \<noteq> stderr (Error ''Incorrect # argmuments passed'' s)"
    by simp
qed

theorem call_errors_witness:
  "Codegen (CallExprAST ''bar'' []) (snd (PrototypeAST_Codegen (PrototypeAST ''foo'' [''a'', ''b'']) (initial [])))
     = (None, Error ''unkown function referenced''
          (snd (PrototypeAST_Codegen (PrototypeAST ''foo'' [''a'', ''b'']) (initial []))))
   \<and> Codegen (CallExprAST ''foo'' [NumberExprAST ''1''])
        (snd (PrototypeAST_Codegen (PrototypeAST ''foo'' [''a'', ''b'']) (initial [])))
     = (None, Error ''Incorrect # argmuments passed''
          (snd (PrototypeAST_Codegen (PrototypeAST ''foo'' [''a'', ''b'']) (initial []))))
   \<and> fst (Codegen (CallExprAST ''foo'' [NumberExprAST ''1'', NumberExprAST ''2''])
        (snd (PrototypeAST_Codegen (PrototypeAST ''foo'' [''a'', ''b'']) (initial []))))
     = Some (CallInst 0 [ConstantFP ''1'', ConstantFP ''2''])
   \<and> (\<exists>CalleeF. getFunction (TheModule (snd (PrototypeAST_Codegen (PrototypeAST ''foo'' [''a'', ''b''])
          (initial [])))) ''foo'' = Some CalleeF \<and> arg_size CalleeF = 2)"
proof -
  let ?s = "snd (PrototypeAST_Codegen (PrototypeAST ''foo'' [''a'', ''b'']) (initial []))"
  have m: "TheModule ?s = [\<lparr>fn_id = 0, fn_name = ''foo'', arg_size = 2, blocks = [], ret = None\<rparr>]"
    by (simp add: cg_eval)
  have 1: "getFunction (TheModule ?s) ''bar'' = None"
    by (simp add: m getFunction_def)
  have 2: "getFunction (TheModule ?s) ''foo''
      = Some \<lparr>fn_id = 0, fn_name = ''foo'', arg_size = 2, blocks = [], ret = None\<rparr>"
    by (simp add: m getFunction_def)
  have 3: "fst (Codegen (CallExprAST ''foo'' [NumberExprAST ''1'', NumberExprAST ''2'']) ?s)
      = Some (CallInst 0 [ConstantFP ''1'', ConstantFP ''2''])"
    by (simp add: 2)
  show ?thesis
    using call_errors [of ?s "''bar''" "[]"] 1
      call_errors [of ?s "''foo''" "[NumberExprAST ''1'']"] 2
      call_errors [of ?s "''foo''" "[NumberExprAST ''1'', NumberExprAST ''2'']"] 3
    by simp
qed

text \<open>
  C2 as stated does not hold: \<^verbatim>\<open>BinaryExprAST::Codegen\<close> lowers the right operand before it
  tests either result. With two unknown variables the left operand fails and the right
  operand is lowered all the same: it prints its own diagnostic and leaves its null entry
  in the symbol scope.
\<close>

theorem binary_right_lowered_after_left_failure:
  "fst (Codegen (VariableExprAST ''x'') (initial [])) = None
   \<and> stderr (snd (Codegen (VariableExprAST ''x'') (initial []))) = [''Error: Unkown variable name'']
   \<and> stderr (snd (Codegen (BinaryExprAST CHR ''+'' (VariableExprAST ''x'') (VariableExprAST ''y''))
        (initial [])))
     = [''Error: Unkown variable name'', ''Error: Unkown variable name'']
   \<and> NamedValues (snd (Codegen (BinaryExprAST CHR ''+'' (VariableExprAST ''x'') (VariableExprAST ''y''))
        (initial []))) ''y'' = Some None"
  by (simp add: initial_def Error_def fprintf_def)

text \<open>
  C2 as amended. Both operands are always lowered, the left one first and the right one in
  the state that the left one leaves, whether or not the left one failed. If either failed
  the node fails in the state after both; otherwise the instruction of the operator is
  built, and an operator other than \<^verbatim>\<open>+ - * <\<close> is an error.
\<close>

theorem binary_lowers_both_operands:
  assumes "Codegen LHS s = (L, s1)" and "Codegen RHS s1 = (R, s2)"
  shows "(L = None \<or> R = None \<longrightarrow> Codegen (BinaryExprAST Op LHS RHS) s = (None, s2))
   \<and> (\<forall>L' R'. L = Some L' \<and> R = Some R' \<longrightarrow>
        Codegen (BinaryExprAST Op LHS RHS) s =
          (if Op = CHR ''+'' then (Some (FAdd L' R'), s2)
           else if Op = CHR ''-'' then (Some (FSub L' R'), s2)
           else if Op = CHR ''*'' then (Some (FMul L' R'), s2)
           else if Op = CHR ''<'' then (Some (UIToFP (FCmpULT L' R')), s2)
           else (None, Error ''invalid binary operator'' s2)))"
  using assms by (cases L; cases R) simp_all

theorem binary_lowers_both_operands_witness:
  "Codegen (BinaryExprAST CHR ''+'' (VariableExprAST ''x'') (VariableExprAST ''y'')) (initial [])
     = (None, snd (Codegen (VariableExprAST ''y'') (snd (Codegen (VariableExprAST ''x'') (initial [])))))
   \<and> Codegen (BinaryExprAST CHR ''<'' (NumberExprAST ''1'') (NumberExprAST ''2'')) (initial [])
     = (Some (UIToFP (FCmpULT (ConstantFP ''1'') (ConstantFP ''2''))), initial [])"
proof -
  obtain L s1 where l: "Codegen (VariableExprAST ''x'') (initial []) = (L, s1)"
    by (cases "Codegen (VariableExprAST ''x'') (initial [])")
  obtain R s2 where r: "Codegen (VariableExprAST ''y'') s1 = (R, s2)"
    by (cases "Codegen (VariableExprAST ''y'') s1")
  have "L = None" using l by (simp add: initial_def)
  then have a: "Codegen (BinaryExprAST CHR ''+'' (VariableExprAST ''x'') (VariableExprAST ''y'')) (initial [])
      = (None, s2)"
    using binary_lowers_both_operands [OF l r, of "CHR ''+''"] by simp
  have n1: "Codegen (NumberExprAST ''1'') (initial []) = (Some (ConstantFP ''1''), initial [])"
    and n2: "Codegen (NumberExprAST ''2'') (initial []) = (Some (ConstantFP ''2''), initial [])"
    by simp_all
  have b: "Codegen (BinaryExprAST CHR ''<'' (NumberExprAST ''1'') (NumberExprAST ''2'')) (initial [])
      = (Some (UIToFP (FCmpULT (ConstantFP ''1'') (ConstantFP ''2''))), initial [])"
    using binary_lowers_both_operands [OF n1 n2, of "CHR ''<''"] by simp
  show ?thesis using a b l r by simp
qed

lemma find_append_None: "find P xs = None \<Longrightarrow> find P (xs @ ys) = find P ys"
  by (induction xs) (auto split: if_splits)

lemma lookup_fn_mem: "F \<in> set M \<Longrightarrow> \<exists>G. lookup_fn M (fn_id F) = Some G"
proof -
  assume "F \<in> set M"
  then have "find (\<lambda>G. fn_id G = fn_id F) M \<noteq> None"
    by (auto simp: find_None_iff)
  then show ?thesis by (auto simp: lookup_fn_def)
qed

lemma PrototypeAST_Codegen_new:
  assumes "getFunction (TheModule s) Name = None"
  shows "PrototypeAST_Codegen (PrototypeAST Name Args) s =
     (Some (next_id s),
      s\<lparr>TheModule := TheModule s @
           [\<lparr>fn_id = next_id s, fn_name = Name, arg_size = length Args, blocks = [], ret = None\<rparr>],
        next_id := Suc (next_id s),
        NamedValues := bind_args (next_id s) 0 Args (NamedValues s)\<rparr>)"
  using assms by (simp add: PrototypeAST_Codegen_def Let_def)

lemma PrototypeAST_Codegen_found:
  assumes "getFunction (TheModule s) Name = Some F"
  shows "PrototypeAST_Codegen (PrototypeAST Name Args) s =
     (if blocks F \<noteq> [] then (None, Error ''redefinition of function'' s)
      else if arg_size F \<noteq> length Args
      then (None, Error ''redefinition of function with different # args'' s)
      else (Some (fn_id F), s\<lparr>NamedValues := bind_args (fn_id F) 0 Args (NamedValues s)\<rparr>))"
  using assms by (simp add: PrototypeAST_Codegen_def)

lemma PrototypeAST_Codegen_Some:
  assumes "PrototypeAST_Codegen (PrototypeAST Name Args) s = (Some f, s')"
  shows "NamedValues s' = bind_args f 0 Args (NamedValues s)"
    and "cursor s' = cursor s" and "stderr s' = stderr s"
    and "filter (\<lambda>F. fn_id F \<noteq> f) (TheModule s') = filter (\<lambda>F. fn_id F \<noteq> f) (TheModule s)"
    and "\<exists>F. lookup_fn (TheModule s') f = Some F"
proof -
  show "NamedValues s' = bind_args f 0 Args (NamedValues s)"
    and "cursor s' = cursor s" and "stderr s' = stderr s"
    and "filter (\<lambda>F. fn_id F \<noteq> f) (TheModule s') = filter (\<lambda>F. fn_id F \<noteq> f) (TheModule s)"
    using assms
    by (cases "getFunction (TheModule s) Name";
        auto simp: PrototypeAST_Codegen_new PrototypeAST_Codegen_found cursor_def split: if_splits)+
  show "\<exists>F. lookup_fn (TheModule s') f = Some F"
  proof (cases "getFunction (TheModule s) Name")
    case None
    then have "f = next_id s" "TheModule s' = TheModule s @
           [\<lparr>fn_id = next_id s, fn_name = Name, arg_size = length Args, blocks = [], ret = None\<rparr>]"
      using assms by (auto simp: PrototypeAST_Codegen_new)
    then show ?thesis
      using lookup_fn_mem [of "\<lparr>fn_id = next_id s, fn_name = Name, arg_size = length Args,
        blocks = [], ret = None\<rparr>" "TheModule s'"] by simp
  next
    case (Some F)
    then have f: "f = fn_id F" "TheModule s' = TheModule s"
      using assms by (auto simp: PrototypeAST_Codegen_found split: if_splits)
    from Some have "F \<in> set (TheModule s)"
      by (auto simp: getFunction_def find_Some_iff split: if_splits)
    then show ?thesis using f lookup_fn_mem by simp
  qed
qed

lemma filter_map_same_id:
  assumes "\<And>F. fn_id (h F) = fn_id F"
  shows "filter (\<lambda>F. fn_id F \<noteq> f) (map (\<lambda>F. if fn_id F = f then h F else F) M)
     = filter (\<lambda>F. fn_id F \<noteq> f) M"
  using assms by (induction M) auto

lemma lookup_fn_map:
  assumes "\<And>F. fn_id (h F) = fn_id F"
  shows "lookup_fn (map (\<lambda>F. if fn_id F = f then h F else F) M) f = map_option h (lookup_fn M f)"
  using assms by (induction M) (auto simp: lookup_fn_def)

lemma lookup_fn_erased: "lookup_fn (filter (\<lambda>F. fn_id F \<noteq> f) M) f = None"
  by (simp add: lookup_fn_def find_None_iff)

lemma FunctionAST_Codegen_unfold:
  assumes "PrototypeAST_Codegen Proto (s\<lparr>NamedValues := Map.empty\<rparr>) = (Some f, s1)"
    and "Codegen Body (BasicBlock_Create ''entry'' f s1) = (r, s2)"
  shows "FunctionAST_Codegen (FunctionAST Proto Body) s =
     (case r of None \<Rightarrow> (None, eraseFromParent f s2)
      | Some RetVal \<Rightarrow> (Some f, CreateRet f RetVal s2))"
  using assms by (simp add: FunctionAST_Codegen_def split: option.splits)

lemma FunctionAST_Codegen_proto_failed:
  assumes "PrototypeAST_Codegen Proto (s\<lparr>NamedValues := Map.empty\<rparr>) = (None, s1)"
  shows "FunctionAST_Codegen (FunctionAST Proto Body) s = (None, s1)"
  using assms by (simp add: FunctionAST_Codegen_def)

lemma PrototypeAST_Codegen_None:
  assumes "PrototypeAST_Codegen (PrototypeAST Name Args) s = (None, s')"
  shows "NamedValues s' = NamedValues s \<and> TheModule s' = TheModule s \<and> cursor s' = cursor s"
  using assms
  by (cases "getFunction (TheModule s) Name")
    (auto simp: PrototypeAST_Codegen_new PrototypeAST_Codegen_found split: if_splits)

text \<open>After a function was lowered, every non-null binding of the scope is one of its own
  parameters, whatever the scope held before.\<close>

lemma FunctionAST_Codegen_scope:
  assumes "NamedValues (snd (FunctionAST_Codegen (FunctionAST (PrototypeAST Name Args) Body) s)) x
      = Some (Some V)"
  shows "x \<in> set Args"
proof -
  let ?s0 = "s\<lparr>NamedValues := Map.empty\<rparr>"
  obtain p s1 where p: "PrototypeAST_Codegen (PrototypeAST Name Args) ?s0 = (p, s1)"
    by (cases "PrototypeAST_Codegen (PrototypeAST Name Args) ?s0")
  show ?thesis
  proof (cases p)
    case None
    then have "NamedValues s1 = Map.empty"
      using PrototypeAST_Codegen_None [of Name Args ?s0 s1] p by simp
    then show ?thesis
      using assms FunctionAST_Codegen_proto_failed [of "PrototypeAST Name Args" s s1 Body] p None
      by simp
  next
    case (Some f)
    let ?sb = "BasicBlock_Create ''entry'' f s1"
    obtain r s2 where b: "Codegen Body ?sb = (r, s2)" by (cases "Codegen Body ?sb")
    have nv1: "NamedValues ?sb = bind_args f 0 Args Map.empty"
      using PrototypeAST_Codegen_Some(1) [of Name Args ?s0 f s1] p Some
      by (simp add: BasicBlock_Create_def)
    have "NamedValues (snd (FunctionAST_Codegen (FunctionAST (PrototypeAST Name Args) Body) s))
        = NamedValues s2"
      using FunctionAST_Codegen_unfold [of "PrototypeAST Name Args" s f s1 Body r s2] p Some b
      by (cases r) (simp_all add: eraseFromParent_def CreateRet_def)
    then have "NamedValues s2 x = Some (Some V)" using assms by simp
    then have "NamedValues ?sb x = Some (Some V)" using Codegen_NamedValues(1) [OF b] by simp
    then have "x \<in> dom (bind_args f 0 Args Map.empty)" using nv1 by auto
    then show ?thesis by (simp add: bind_args_dom)
  qed
qed

lemma FunctionAST_Codegen_vars:
  assumes "fst (FunctionAST_Codegen (FunctionAST (PrototypeAST Name Args) Body) s) \<noteq> None"
  shows "vars Body \<subseteq> set Args"
proof
  fix x assume x: "x \<in> vars Body"
  let ?s0 = "s\<lparr>NamedValues := Map.empty\<rparr>"
  obtain p s1 where p: "PrototypeAST_Codegen (PrototypeAST Name Args) ?s0 = (p, s1)"
    by (cases "PrototypeAST_Codegen (PrototypeAST Name Args) ?s0")
  show "x \<in> set Args"
  proof (cases p)
    case None
    then show ?thesis
      using assms FunctionAST_Codegen_proto_failed [of "PrototypeAST Name Args" s s1 Body] p
      by simp
  next
    case (Some f)
    let ?sb = "BasicBlock_Create ''entry'' f s1"
    obtain r s2 where b: "Codegen Body ?sb = (r, s2)" by (cases "Codegen Body ?sb")
    have nv1: "NamedValues ?sb = bind_args f 0 Args Map.empty"
      using PrototypeAST_Codegen_Some(1) [of Name Args ?s0 f s1] p Some
      by (simp add: BasicBlock_Create_def)
    have "r \<noteq> None"
      using assms FunctionAST_Codegen_unfold [of "PrototypeAST Name Args" s f s1 Body r s2] p Some b
      by (cases r) simp_all
    then obtain v where "Codegen Body ?sb = (Some v, s2)" using b by auto
    then obtain V where "NamedValues ?sb x = Some (Some V)"
      using Codegen_Some_vars(1) x by blast
    then have "x \<in> dom (bind_args f 0 Args Map.empty)" using nv1 by auto
    then show ?thesis by (simp add: bind_args_dom)
  qed
qed

lemma getFunction_map:
  assumes "\<And>G. fn_name (h G) = fn_name G"
  shows "getFunction (map h M) Name = map_option h (getFunction M Name)"
  using assms by (induction M) (auto simp: getFunction_def)

lemma getFunction_Some: "getFunction M Name = Some F \<Longrightarrow> fn_name F = Name \<and> Name \<noteq> [] \<and> F \<in> set M"
  by (auto simp: getFunction_def find_Some_iff split: if_splits)

text \<open>
  C5. Lowering a prototype whose name the module already holds: if the function found has
  a body, the lowering fails with \<^verbatim>\<open>redefinition of function\<close>; if it has no body and
  another number of parameters, it fails with
  \<^verbatim>\<open>redefinition of function with different # args\<close>; if it has no body and the same number
  of parameters, the lowering succeeds with the function found, binds the parameters and
  changes nothing else. A definition of that name whose body lowers then succeeds and
  fills in the body: it returns the function found, prints nothing, and gives that
  function, and no function of another identity, the block \<^verbatim>\<open>entry\<close> and the \<^verbatim>\<open>ret\<close> of the
  value of the body, so that the name now has a body and a further prototype of that name
  is a redefinition. Lowering the same named prototype a second time succeeds and changes
  nothing.
\<close>

theorem prototype_redefinition:
  "(\<forall>F. getFunction (TheModule s) Name = Some F \<and> blocks F \<noteq> [] \<longrightarrow>
       PrototypeAST_Codegen (PrototypeAST Name Args) s
         = (None, Error ''redefinition of function'' s))
   \<and> (\<forall>F. getFunction (TheModule s) Name = Some F \<and> blocks F = [] \<and> arg_size F \<noteq> length Args \<longrightarrow>
       PrototypeAST_Codegen (PrototypeAST Name Args) s
         = (None, Error ''redefinition of function with different # args'' s))
   \<and> (\<forall>F. getFunction (TheModule s) Name = Some F \<and> blocks F = [] \<and> arg_size F = length Args \<longrightarrow>
       PrototypeAST_Codegen (PrototypeAST Name Args) s
         = (Some (fn_id F), s\<lparr>NamedValues := bind_args (fn_id F) 0 Args (NamedValues s)\<rparr>)
       \<and> (\<forall>RetVal s2. Codegen Body (BasicBlock_Create ''entry'' (fn_id F)
              (s\<lparr>NamedValues := bind_args (fn_id F) 0 Args Map.empty\<rparr>)) = (Some RetVal, s2) \<longrightarrow>
           FunctionAST_Codegen (FunctionAST (PrototypeAST Name Args) Body) s
             = (Some (fn_id F), CreateRet (fn_id F) RetVal s2)
           \<and> stderr (CreateRet (fn_id F) RetVal s2) = stderr s
           \<and> TheModule (CreateRet (fn_id F) RetVal s2)
             = map (\<lambda>G. if fn_id G = fn_id F
                         then G\<lparr>blocks := blocks G @ [''entry''], ret := Some RetVal\<rparr> else G)
                 (TheModule s)
           \<and> getFunction (TheModule (CreateRet (fn_id F) RetVal s2)) Name
             = Some (F\<lparr>blocks := [''entry''], ret := Some RetVal\<rparr>)
           \<and> PrototypeAST_Codegen (PrototypeAST Name Args) (CreateRet (fn_id F) RetVal s2)
             = (None, Error ''redefinition of function'' (CreateRet (fn_id F) RetVal s2))))
   \<and> (\<forall>f s1. Name \<noteq> [] \<and> PrototypeAST_Codegen (PrototypeAST Name Args) s = (Some f, s1) \<longrightarrow>
       PrototypeAST_Codegen (PrototypeAST Name Args) s1 = (Some f, s1))"
proof (intro conjI allI impI)
  fix F
  assume "getFunction (TheModule s) Name = Some F \<and> blocks F \<noteq> []"
  then show "PrototypeAST_Codegen (PrototypeAST Name Args) s
      = (None, Error ''redefinition of function'' s)"
    by (simp add: PrototypeAST_Codegen_found)
next
  fix F
  assume "getFunction (TheModule s) Name = Some F \<and> blocks F = [] \<and> arg_size F \<noteq> length Args"
  then show "PrototypeAST_Codegen (PrototypeAST Name Args) s
      = (None, Error ''redefinition of function with different # args'' s)"
    by (simp add: PrototypeAST_Codegen_found)
next
  fix F
  assume a: "getFunction (TheModule s) Name = Some F \<and> blocks F = [] \<and> arg_size F = length Args"
  then show "PrototypeAST_Codegen (PrototypeAST Name Args) s
         = (Some (fn_id F), s\<lparr>NamedValues := bind_args (fn_id F) 0 Args (NamedValues s)\<rparr>)"
    by (simp add: PrototypeAST_Codegen_found)
next
  fix F :: Function and RetVal s2
  let ?f = "fn_id F"
  let ?s0 = "s\<lparr>NamedValues := Map.empty\<rparr>"
  let ?s1 = "s\<lparr>NamedValues := bind_args ?f 0 Args Map.empty\<rparr>"
  let ?h = "\<lambda>G. if fn_id G = ?f then G\<lparr>blocks := blocks G @ [''entry''], ret := Some RetVal\<rparr> else G"
  assume a: "getFunction (TheModule s) Name = Some F \<and> blocks F = [] \<and> arg_size F = length Args"
    and c: "Codegen Body (BasicBlock_Create ''entry'' ?f ?s1) = (Some RetVal, s2)"
  have p: "PrototypeAST_Codegen (PrototypeAST Name Args) ?s0 = (Some ?f, ?s1)"
    using a PrototypeAST_Codegen_found [of ?s0 Name F Args] by simp
  show fc: "FunctionAST_Codegen (FunctionAST (PrototypeAST Name Args) Body) s
      = (Some ?f, CreateRet ?f RetVal s2)"
    using FunctionAST_Codegen_unfold [OF p c] by simp
  have s2: "s2 = BasicBlock_Create ''entry'' ?f ?s1"
    using Codegen_Some_same(1) [OF c] .
  show "stderr (CreateRet ?f RetVal s2) = stderr s"
    by (simp add: s2 CreateRet_def BasicBlock_Create_def)
  show m: "TheModule (CreateRet ?f RetVal s2) = map ?h (TheModule s)"
    by (simp add: s2 CreateRet_def BasicBlock_Create_def comp_def if_distrib cong: if_cong)
  have "getFunction (map ?h (TheModule s)) Name = map_option ?h (getFunction (TheModule s) Name)"
    by (rule getFunction_map) simp
  then show g: "getFunction (TheModule (CreateRet ?f RetVal s2)) Name
      = Some (F\<lparr>blocks := [''entry''], ret := Some RetVal\<rparr>)"
    using a m by simp
  then show "PrototypeAST_Codegen (PrototypeAST Name Args) (CreateRet ?f RetVal s2)
      = (None, Error ''redefinition of function'' (CreateRet ?f RetVal s2))"
    by (simp add: PrototypeAST_Codegen_found)
next
  fix f s1
  assume a: "Name \<noteq> [] \<and> PrototypeAST_Codegen (PrototypeAST Name Args) s = (Some f, s1)"
  show "PrototypeAST_Codegen (PrototypeAST Name Args) s1 = (Some f, s1)"
  proof (cases "getFunction (TheModule s) Name")
    case None
    let ?F = "\<lparr>fn_id = next_id s, fn_name = Name, arg_size = length Args, blocks = [], ret = None\<rparr>"
    have s1: "f = next_id s"
      "s1 = s\<lparr>TheModule := TheModule s @ [?F], next_id := Suc (next_id s),
        NamedValues := bind_args (next_id s) 0 Args (NamedValues s)\<rparr>"
      using a None by (auto simp add: PrototypeAST_Codegen_new)
    have "find (\<lambda>F. fn_name F = Name) (TheModule s) = None"
      using None a by (simp add: getFunction_def)
    then have "getFunction (TheModule s1) Name = Some ?F"
      using a s1 by (simp add: getFunction_def find_append_None)
    then show ?thesis
      using s1 by (simp add: PrototypeAST_Codegen_found bind_args_idem)
  next
    case (Some F)
    then have s1: "blocks F = []" "arg_size F = length Args" "f = fn_id F"
      "s1 = s\<lparr>NamedValues := bind_args (fn_id F) 0 Args (NamedValues s)\<rparr>"
      using a by (auto simp: PrototypeAST_Codegen_found split: if_splits)
    then have "getFunction (TheModule s1) Name = Some F" using Some by simp
    then show ?thesis
      using s1 by (simp add: PrototypeAST_Codegen_found bind_args_idem)
  qed
qed


theorem prototype_redefinition_witness:
  "PrototypeAST_Codegen (PrototypeAST ''foo'' [''a''])
      (snd (PrototypeAST_Codegen (PrototypeAST ''foo'' [''a'']) (initial [])))
     = (Some 0, snd (PrototypeAST_Codegen (PrototypeAST ''foo'' [''a'']) (initial [])))
   \<and> PrototypeAST_Codegen (PrototypeAST ''foo'' [''a'', ''b''])
      (snd (PrototypeAST_Codegen (PrototypeAST ''foo'' [''a'']) (initial [])))
     = (None, Error ''redefinition of function with different # args''
          (snd (PrototypeAST_Codegen (PrototypeAST ''foo'' [''a'']) (initial []))))
   \<and> fst (FunctionAST_Codegen (FunctionAST (PrototypeAST ''foo'' [''a'']) (VariableExprAST ''a''))
      (snd (PrototypeAST_Codegen (PrototypeAST ''foo'' [''a'']) (initial [])))) = Some 0
   \<and> getFunction (TheModule (snd (FunctionAST_Codegen
        (FunctionAST (PrototypeAST ''foo'' [''a'']) (VariableExprAST ''a''))
        (snd (PrototypeAST_Codegen (PrototypeAST ''foo'' [''a'']) (initial [])))))) ''foo''
     = Some \<lparr>fn_id = 0, fn_name = ''foo'', arg_size = 1, blocks = [''entry''],
          ret = Some (Argument 0 0)\<rparr>
   \<and> PrototypeAST_Codegen (PrototypeAST ''foo'' [''a''])
      (snd (FunctionAST_Codegen (FunctionAST (PrototypeAST ''foo'' [''a'']) (VariableExprAST ''a''))
         (initial [])))
     = (None, Error ''redefinition of function''
          (snd (FunctionAST_Codegen (FunctionAST (PrototypeAST ''foo'' [''a'']) (VariableExprAST ''a''))
             (initial []))))"
proof -
  let ?P = "PrototypeAST ''foo'' [''a'']"
  let ?B = "VariableExprAST ''a''"
  let ?se = "snd (PrototypeAST_Codegen ?P (initial []))"
  let ?sd = "snd (FunctionAST_Codegen (FunctionAST ?P ?B) (initial []))"
  let ?F = "\<lparr>fn_id = 0, fn_name = ''foo'', arg_size = Suc 0, blocks = [], ret = None\<rparr>"
  let ?G = "\<lparr>fn_id = 0, fn_name = ''foo'', arg_size = Suc 0, blocks = [''entry''],
          ret = Some (Argument 0 0)\<rparr>"
  let ?sb = "BasicBlock_Create ''entry'' (fn_id ?F)
      (?se\<lparr>NamedValues := bind_args (fn_id ?F) 0 [''a''] Map.empty\<rparr>)"
  have e: "''foo'' \<noteq> [] \<and> PrototypeAST_Codegen ?P (initial []) = (Some 0, ?se)"
    by (simp add: cg_eval)
  have ge2: "getFunction (TheModule ?se) ''foo'' = Some ?F \<and> blocks ?F = []
      \<and> arg_size ?F \<noteq> length [''a'', ''b'']"
    by (simp add: cg_eval)
  have ge1: "getFunction (TheModule ?se) ''foo'' = Some ?F \<and> blocks ?F = []
      \<and> arg_size ?F = length [''a'']"
    by (simp add: cg_eval)
  have body: "Codegen ?B ?sb = (Some (Argument 0 0), ?sb)"
    by (simp add: cg_eval)
  have gd: "getFunction (TheModule ?sd) ''foo'' = Some ?G \<and> blocks ?G \<noteq> []"
    by (simp add: cg_eval)
  have 1: "PrototypeAST_Codegen ?P ?se = (Some 0, ?se)"
    using prototype_redefinition [of "initial []" "''foo''" "[''a'']" ?B,
        THEN conjunct2, THEN conjunct2, THEN conjunct2, rule_format, OF e] .
  have 2: "PrototypeAST_Codegen (PrototypeAST ''foo'' [''a'', ''b'']) ?se
     = (None, Error ''redefinition of function with different # args'' ?se)"
    using prototype_redefinition [of ?se "''foo''" "[''a'', ''b'']" ?B,
        THEN conjunct2, THEN conjunct1, rule_format, OF ge2] .
  note D = prototype_redefinition [of ?se "''foo''" "[''a'']" ?B,
        THEN conjunct2, THEN conjunct2, THEN conjunct1, rule_format, OF ge1,
        THEN conjunct2, rule_format, OF body]
  have f3: "FunctionAST_Codegen (FunctionAST ?P ?B) ?se = (Some (fn_id ?F), CreateRet (fn_id ?F) (Argument 0 0) ?sb)"
    using D [THEN conjunct1] .
  have g3: "getFunction (TheModule (CreateRet (fn_id ?F) (Argument 0 0) ?sb)) ''foo''
      = Some (?F\<lparr>blocks := [''entry''], ret := Some (Argument 0 0)\<rparr>)"
    using D [THEN conjunct2, THEN conjunct2, THEN conjunct2, THEN conjunct1] .
  have 4: "PrototypeAST_Codegen ?P ?sd = (None, Error ''redefinition of function'' ?sd)"
    using prototype_redefinition [of ?sd "''foo''" "[''a'']" ?B,
        THEN conjunct1, rule_format, OF gd] .
  have c3: "fst (FunctionAST_Codegen (FunctionAST ?P ?B) ?se) = Some 0"
    using f3 by simp
  have c3b: "getFunction (TheModule (snd (FunctionAST_Codegen (FunctionAST ?P ?B) ?se))) ''foo''
      = Some \<lparr>fn_id = 0, fn_name = ''foo'', arg_size = 1, blocks = [''entry''],
          ret = Some (Argument 0 0)\<rparr>"
    unfolding f3 snd_conv g3 by simp
  show ?thesis using 1 2 c3 c3b 4 by (intro conjI)
qed

text \<open>
  C7. \<^verbatim>\<open>FunctionAST::Codegen\<close> clears the symbol scope first, so its result does not depend
  on what the scope held; after it every non-null binding of the scope is a parameter of
  the function just lowered; a function lowers only if every variable of its body is one
  of its parameters; and a body that is a variable outside the parameters fails with
  \<^verbatim>\<open>Unkown variable name\<close> (the spelling of the source), whatever was bound before.
\<close>

theorem scope_is_per_function:
  "FunctionAST_Codegen Fn (s\<lparr>NamedValues := nv\<rparr>) = FunctionAST_Codegen Fn s
   \<and> (\<forall>y V. NamedValues (snd (FunctionAST_Codegen (FunctionAST (PrototypeAST Name Args) Body) s)) y
          = Some (Some V) \<longrightarrow> y \<in> set Args)
   \<and> (fst (FunctionAST_Codegen (FunctionAST (PrototypeAST Name Args) Body) s) \<noteq> None \<longrightarrow>
        vars Body \<subseteq> set Args)
   \<and> (x \<notin> set Args \<and> getFunction (TheModule s) Name = None \<longrightarrow>
        fst (FunctionAST_Codegen (FunctionAST (PrototypeAST Name Args) (VariableExprAST x)) s) = None
        \<and> stderr (snd (FunctionAST_Codegen (FunctionAST (PrototypeAST Name Args) (VariableExprAST x)) s))
            = stderr s @ [''Error: Unkown variable name''])"
proof (intro conjI allI impI)
  show "FunctionAST_Codegen Fn (s\<lparr>NamedValues := nv\<rparr>) = FunctionAST_Codegen Fn s"
    by (cases Fn) (simp add: FunctionAST_Codegen_def)
next
  fix y V
  assume "NamedValues (snd (FunctionAST_Codegen (FunctionAST (PrototypeAST Name Args) Body) s)) y
      = Some (Some V)"
  then show "y \<in> set Args" by (rule FunctionAST_Codegen_scope)
next
  assume "fst (FunctionAST_Codegen (FunctionAST (PrototypeAST Name Args) Body) s) \<noteq> None"
  then show "vars Body \<subseteq> set Args" by (rule FunctionAST_Codegen_vars)
next
  assume a: "x \<notin> set Args \<and> getFunction (TheModule s) Name = None"
  let ?s0 = "s\<lparr>NamedValues := Map.empty\<rparr>"
  let ?f = "next_id s"
  let ?s1 = "?s0\<lparr>TheModule := TheModule s @
           [\<lparr>fn_id = ?f, fn_name = Name, arg_size = length Args, blocks = [], ret = None\<rparr>],
        next_id := Suc ?f, NamedValues := bind_args ?f 0 Args Map.empty\<rparr>"
  let ?sb = "BasicBlock_Create ''entry'' ?f ?s1"
  have p: "PrototypeAST_Codegen (PrototypeAST Name Args) ?s0 = (Some ?f, ?s1)"
    using a PrototypeAST_Codegen_new [of ?s0 Name Args] by simp
  have "NamedValues ?sb x = None"
    using a by (simp add: BasicBlock_Create_def bind_args_notin)
  then have b: "Codegen (VariableExprAST x) ?sb
      = (None, Error ''Unkown variable name'' (?sb\<lparr>NamedValues := (NamedValues ?sb)(x \<mapsto> None)\<rparr>))"
    by simp
  have r: "FunctionAST_Codegen (FunctionAST (PrototypeAST Name Args) (VariableExprAST x)) s
      = (None, eraseFromParent ?f
           (Error ''Unkown variable name'' (?sb\<lparr>NamedValues := (NamedValues ?sb)(x \<mapsto> None)\<rparr>)))"
    using FunctionAST_Codegen_unfold [OF p b] by simp
  show "fst (FunctionAST_Codegen (FunctionAST (PrototypeAST Name Args) (VariableExprAST x)) s) = None"
    using r by simp
  show "stderr (snd (FunctionAST_Codegen (FunctionAST (PrototypeAST Name Args) (VariableExprAST x)) s))
      = stderr s @ [''Error: Unkown variable name'']"
    using r by (simp add: eraseFromParent_def BasicBlock_Create_def)
qed

theorem scope_is_per_function_witness:
  "NamedValues (snd (FunctionAST_Codegen (FunctionAST (PrototypeAST ''f'' [''x''])
        (VariableExprAST ''x'')) (initial []))) ''x'' = Some (Some (Argument 0 0))
   \<and> fst (FunctionAST_Codegen (FunctionAST (PrototypeAST ''g'' [''y'']) (VariableExprAST ''x''))
        (snd (FunctionAST_Codegen (FunctionAST (PrototypeAST ''f'' [''x''])
           (VariableExprAST ''x'')) (initial [])))) = None
   \<and> stderr (snd (FunctionAST_Codegen (FunctionAST (PrototypeAST ''g'' [''y'']) (VariableExprAST ''x''))
        (snd (FunctionAST_Codegen (FunctionAST (PrototypeAST ''f'' [''x''])
           (VariableExprAST ''x'')) (initial []))))) = [''Error: Unkown variable name'']
   \<and> vars (VariableExprAST ''x'') \<subseteq> set [''x'']"
proof -
  let ?sf = "snd (FunctionAST_Codegen (FunctionAST (PrototypeAST ''f'' [''x''])
        (VariableExprAST ''x'')) (initial []))"
  have 1: "NamedValues ?sf ''x'' = Some (Some (Argument 0 0))"
    by (simp add: cg_eval)
  have 2: "''x'' \<notin> set [''y''] \<and> getFunction (TheModule ?sf) ''g'' = None"
    by (simp add: cg_eval)
  have 3: "stderr ?sf = []"
    by (simp add: cg_eval)
  have 4: "fst (FunctionAST_Codegen (FunctionAST (PrototypeAST ''f'' [''x''])
        (VariableExprAST ''x'')) (initial [])) \<noteq> None"
    by (simp add: cg_eval)
  show ?thesis
    using scope_is_per_function [where s = ?sf and Name = "''g''" and Args = "[''y'']"
        and x = "''x''"] 1 2 3
      scope_is_per_function [where s = "initial []" and Name = "''f''" and Args = "[''x'']"
        and Body = "VariableExprAST ''x''"] 4
    by simp
qed

text \<open>
  C8. When the prototype of a function lowers to the function object \<open>f\<close> and the body
  fails, \<^verbatim>\<open>FunctionAST::Codegen\<close> returns the null pointer and erases \<open>f\<close>: the module no
  longer holds a function of that identity, and holds every other function it held
  before. When the body lowers, \<open>f\<close> is returned, it has a basic block and its \<^verbatim>\<open>ret\<close>
  instruction returns the value of the body. When the prototype fails nothing is erased.
\<close>

theorem function_body_failure_erases:
  "(\<forall>s1. PrototypeAST_Codegen Proto (s\<lparr>NamedValues := Map.empty\<rparr>) = (None, s1) \<longrightarrow>
       FunctionAST_Codegen (FunctionAST Proto Body) s = (None, s1) \<and> TheModule s1 = TheModule s)
   \<and> (\<forall>f s1 s2. PrototypeAST_Codegen Proto (s\<lparr>NamedValues := Map.empty\<rparr>) = (Some f, s1)
         \<and> Codegen Body (BasicBlock_Create ''entry'' f s1) = (None, s2) \<longrightarrow>
       FunctionAST_Codegen (FunctionAST Proto Body) s = (None, eraseFromParent f s2)
       \<and> lookup_fn (TheModule (eraseFromParent f s2)) f = None
       \<and> TheModule (eraseFromParent f s2) = filter (\<lambda>F. fn_id F \<noteq> f) (TheModule s))
   \<and> (\<forall>f s1 RetVal s2. PrototypeAST_Codegen Proto (s\<lparr>NamedValues := Map.empty\<rparr>) = (Some f, s1)
         \<and> Codegen Body (BasicBlock_Create ''entry'' f s1) = (Some RetVal, s2) \<longrightarrow>
       FunctionAST_Codegen (FunctionAST Proto Body) s = (Some f, CreateRet f RetVal s2)
       \<and> (\<exists>F. lookup_fn (TheModule (CreateRet f RetVal s2)) f = Some F
             \<and> ret F = Some RetVal \<and> blocks F \<noteq> []))"
proof -
  obtain Name Args where P: "Proto = PrototypeAST Name Args" by (cases Proto)
  let ?s0 = "s\<lparr>NamedValues := Map.empty\<rparr>"
  show ?thesis
  proof (intro conjI allI impI)
    fix s1
    assume a: "PrototypeAST_Codegen Proto ?s0 = (None, s1)"
    then show "FunctionAST_Codegen (FunctionAST Proto Body) s = (None, s1)"
      by (rule FunctionAST_Codegen_proto_failed)
    show "TheModule s1 = TheModule s"
      using PrototypeAST_Codegen_None [of Name Args ?s0 s1] a P by simp
  next
    fix f s1 s2
    assume a: "PrototypeAST_Codegen Proto ?s0 = (Some f, s1)
        \<and> Codegen Body (BasicBlock_Create ''entry'' f s1) = (None, s2)"
    then have p: "PrototypeAST_Codegen Proto ?s0 = (Some f, s1)"
      and b: "Codegen Body (BasicBlock_Create ''entry'' f s1) = (None, s2)" by simp_all
    show "FunctionAST_Codegen (FunctionAST Proto Body) s = (None, eraseFromParent f s2)"
      using FunctionAST_Codegen_unfold [OF p b] by simp
    show "lookup_fn (TheModule (eraseFromParent f s2)) f = None"
      by (simp add: eraseFromParent_def lookup_fn_erased)
    have "TheModule s2 = TheModule (BasicBlock_Create ''entry'' f s1)"
      using Codegen_frame(1) [OF b] by simp
    then have "filter (\<lambda>F. fn_id F \<noteq> f) (TheModule s2) = filter (\<lambda>F. fn_id F \<noteq> f) (TheModule s1)"
      by (simp add: BasicBlock_Create_def filter_map_same_id)
    also have "\<dots> = filter (\<lambda>F. fn_id F \<noteq> f) (TheModule s)"
      using PrototypeAST_Codegen_Some(4) [of Name Args ?s0 f s1] p P by simp
    finally show "TheModule (eraseFromParent f s2) = filter (\<lambda>F. fn_id F \<noteq> f) (TheModule s)"
      by (simp add: eraseFromParent_def)
  next
    fix f s1 RetVal s2
    assume a: "PrototypeAST_Codegen Proto ?s0 = (Some f, s1)
        \<and> Codegen Body (BasicBlock_Create ''entry'' f s1) = (Some RetVal, s2)"
    then have p: "PrototypeAST_Codegen Proto ?s0 = (Some f, s1)"
      and b: "Codegen Body (BasicBlock_Create ''entry'' f s1) = (Some RetVal, s2)" by simp_all
    show "FunctionAST_Codegen (FunctionAST Proto Body) s = (Some f, CreateRet f RetVal s2)"
      using FunctionAST_Codegen_unfold [OF p b] by simp
    obtain F0 where F0: "lookup_fn (TheModule s1) f = Some F0"
      using PrototypeAST_Codegen_Some(5) [of Name Args ?s0 f s1] p P by auto
    have m2: "TheModule s2 = TheModule (BasicBlock_Create ''entry'' f s1)"
      using Codegen_frame(1) [OF b] by simp
    have "lookup_fn (TheModule s2) f = Some (F0\<lparr>blocks := blocks F0 @ [''entry'']\<rparr>)"
      using F0 lookup_fn_map [of "\<lambda>F. F\<lparr>blocks := blocks F @ [''entry'']\<rparr>" f "TheModule s1"]
      by (simp add: m2 BasicBlock_Create_def)
    then have "lookup_fn (TheModule (CreateRet f RetVal s2)) f
        = Some (F0\<lparr>blocks := blocks F0 @ [''entry''], ret := Some RetVal\<rparr>)"
      using lookup_fn_map [of "\<lambda>F. F\<lparr>ret := Some RetVal\<rparr>" f "TheModule s2"]
      by (simp add: CreateRet_def)
    then show "\<exists>F. lookup_fn (TheModule (CreateRet f RetVal s2)) f = Some F
        \<and> ret F = Some RetVal \<and> blocks F \<noteq> []"
      by simp
  qed
qed

theorem function_body_failure_erases_witness:
  "FunctionAST_Codegen (FunctionAST (PrototypeAST ''f'' [''x'']) (VariableExprAST ''y'')) (initial [])
     = (None, eraseFromParent 0 (snd (Codegen (VariableExprAST ''y'') (BasicBlock_Create ''entry'' 0
          (snd (PrototypeAST_Codegen (PrototypeAST ''f'' [''x'']) (initial [])))))))
   \<and> TheModule (eraseFromParent 0 (snd (Codegen (VariableExprAST ''y'') (BasicBlock_Create ''entry'' 0
          (snd (PrototypeAST_Codegen (PrototypeAST ''f'' [''x'']) (initial []))))))) = []
   \<and> fst (FunctionAST_Codegen (FunctionAST (PrototypeAST ''f'' [''x'']) (VariableExprAST ''x''))
        (initial [])) = Some 0"
proof -
  let ?P = "PrototypeAST ''f'' [''x'']"
  let ?s1 = "snd (PrototypeAST_Codegen ?P (initial []))"
  let ?sb = "BasicBlock_Create ''entry'' 0 ?s1"
  let ?s2 = "snd (Codegen (VariableExprAST ''y'') ?sb)"
  have i: "(initial [])\<lparr>NamedValues := Map.empty\<rparr> = initial []"
    by (simp add: initial_def)
  have a: "PrototypeAST_Codegen ?P ((initial [])\<lparr>NamedValues := Map.empty\<rparr>) = (Some 0, ?s1)
      \<and> Codegen (VariableExprAST ''y'') ?sb = (None, ?s2)"
    by (simp add: cg_eval)
  have b: "PrototypeAST_Codegen ?P ((initial [])\<lparr>NamedValues := Map.empty\<rparr>) = (Some 0, ?s1)
      \<and> Codegen (VariableExprAST ''x'') ?sb = (Some (Argument 0 0), ?sb)"
    by (simp add: cg_eval)
  have m: "filter (\<lambda>F. fn_id F \<noteq> 0) (TheModule (initial [])) = []"
    by (simp add: initial_def)
  note A = function_body_failure_erases [of ?P "initial []" "VariableExprAST ''y''",
      THEN conjunct2, THEN conjunct1, rule_format, OF a]
  note B = function_body_failure_erases [of ?P "initial []" "VariableExprAST ''x''",
      THEN conjunct2, THEN conjunct2, rule_format, OF b]
  show ?thesis using A B m by simp
qed

text \<open>
  C10. \<^verbatim>\<open>PrototypeAST::Codegen\<close> binds the parameters of the prototype in the symbol scope and
  leaves every other entry of the scope as it was: it does not clear the scope. So does
  \<^verbatim>\<open>HandleExtern\<close>, whose parser does not touch the scope. The bindings stay until a function
  is lowered: after \<^verbatim>\<open>FunctionAST::Codegen\<close> a name outside that function's parameters has
  no non-null binding.
\<close>

theorem extern_binds_parameters:
  "(\<forall>f s'. PrototypeAST_Codegen (PrototypeAST Name Args) s = (Some f, s') \<longrightarrow>
       (\<forall>a \<in> set Args. \<exists>i<length Args. NamedValues s' a = Some (Some (Argument f i)))
       \<and> (\<forall>y. y \<notin> set Args \<longrightarrow> NamedValues s' y = NamedValues s y))
   \<and> (\<forall>s1 f s2. ParseExtern s = (Some (PrototypeAST Name Args), s1)
         \<and> PrototypeAST_Codegen (PrototypeAST Name Args) s1 = (Some f, s2) \<longrightarrow>
       (\<forall>a \<in> set Args. \<exists>i<length Args. NamedValues (HandleExtern s) a = Some (Some (Argument f i)))
       \<and> (\<forall>y. y \<notin> set Args \<longrightarrow> NamedValues (HandleExtern s) y = NamedValues s y))
   \<and> (\<forall>V. x \<notin> set Args' \<longrightarrow>
       NamedValues (snd (FunctionAST_Codegen (FunctionAST (PrototypeAST Name' Args') Body) s)) x
         \<noteq> Some (Some V))"
proof -
  have bind: "(\<forall>a \<in> set Args. \<exists>i<length Args. NamedValues s' a = Some (Some (Argument f i)))
       \<and> (\<forall>y. y \<notin> set Args \<longrightarrow> NamedValues s' y = NamedValues s0 y)"
    if "PrototypeAST_Codegen (PrototypeAST Name Args) s0 = (Some f, s')" for f s' s0
  proof -
    have nv: "NamedValues s' = bind_args f 0 Args (NamedValues s0)"
      using PrototypeAST_Codegen_Some(1) [OF that] .
    show ?thesis
    proof (intro conjI ballI allI impI)
      fix a assume "a \<in> set Args"
      then show "\<exists>i<length Args. NamedValues s' a = Some (Some (Argument f i))"
        using bind_args_in [of a Args 0 f "NamedValues s0"] nv by auto
    next
      fix y assume "y \<notin> set Args"
      then show "NamedValues s' y = NamedValues s0 y"
        using nv by (simp add: bind_args_notin)
    qed
  qed
  have ext: "(\<forall>a \<in> set Args. \<exists>i<length Args. NamedValues (HandleExtern s) a = Some (Some (Argument f i)))
       \<and> (\<forall>y. y \<notin> set Args \<longrightarrow> NamedValues (HandleExtern s) y = NamedValues s y)"
    if a: "ParseExtern s = (Some (PrototypeAST Name Args), s1)
        \<and> PrototypeAST_Codegen (PrototypeAST Name Args) s1 = (Some f, s2)" for s1 f s2
  proof -
    have h: "HandleExtern s = fprintf ''Read extern: '' s2"
      using a by (simp add: HandleExtern_def)
    have "s1 = snd (ParsePrototype (getNextToken s))" using a by (simp add: ParseExtern_def)
    then have "NamedValues s1 = NamedValues (getNextToken s)"
      using ParsePrototype_frame [of "getNextToken s"] by simp
    then have nv1: "NamedValues s1 = NamedValues s"
      using backend_getNextToken [of s] by (simp add: backend_def)
    from a bind [of s1 f s2] show ?thesis
      using h nv1 by simp
  qed
  have clear: "NamedValues (snd (FunctionAST_Codegen (FunctionAST (PrototypeAST Name' Args') Body) s)) x
         \<noteq> Some (Some V)" if "x \<notin> set Args'" for V
    using that FunctionAST_Codegen_scope [of Name' Args' Body s x V] by blast
  show ?thesis
  proof (intro conjI)
    show "\<forall>f s'. PrototypeAST_Codegen (PrototypeAST Name Args) s = (Some f, s') \<longrightarrow>
       (\<forall>a \<in> set Args. \<exists>i<length Args. NamedValues s' a = Some (Some (Argument f i)))
       \<and> (\<forall>y. y \<notin> set Args \<longrightarrow> NamedValues s' y = NamedValues s y)"
      using bind by blast
    show "\<forall>s1 f s2. ParseExtern s = (Some (PrototypeAST Name Args), s1)
         \<and> PrototypeAST_Codegen (PrototypeAST Name Args) s1 = (Some f, s2) \<longrightarrow>
       (\<forall>a \<in> set Args. \<exists>i<length Args. NamedValues (HandleExtern s) a = Some (Some (Argument f i)))
       \<and> (\<forall>y. y \<notin> set Args \<longrightarrow> NamedValues (HandleExtern s) y = NamedValues s y)"
      using ext by blast
    show "\<forall>V. x \<notin> set Args' \<longrightarrow>
       NamedValues (snd (FunctionAST_Codegen (FunctionAST (PrototypeAST Name' Args') Body) s)) x
         \<noteq> Some (Some V)"
      using clear by blast
  qed
qed

lemma eq_char_of_iff: "(c = char_of n) = (take_bit 8 n = of_char c)"
  using char_of_eq_iff [of n c] by auto

lemmas parse_eval = lex_eval eq_char_of_iff ParsePrototype_def ParsePrototype_args.simps ParseExtern_def
  ParseNumberExpr_def GetTokPrecedence_def BinopPrecedence_def ParseDefinition_def
  ParseTopLevelExpr_def

lemmas run_eval = parse_eval cg_eval HandleExtern_def HandleDefinition_def
  HandleTopLevelExpression_def main_def

theorem extern_binds_parameters_witness:
  "(\<exists>i<1. NamedValues (HandleExtern (HandleExtern (getNextToken (initial ''extern foo(a) extern bar(b)''))))
        ''b'' = Some (Some (Argument 1 i)))
   \<and> NamedValues (HandleExtern (HandleExtern (getNextToken (initial ''extern foo(a) extern bar(b)''))))
        ''a'' = Some (Some (Argument 0 0))
   \<and> NamedValues (snd (FunctionAST_Codegen (FunctionAST (PrototypeAST [] []) (NumberExprAST ''1''))
        (HandleExtern (HandleExtern (getNextToken (initial ''extern foo(a) extern bar(b)''))))))
        ''a'' \<noteq> Some (Some (Argument 0 0))"
proof -
  let ?s0 = "getNextToken (initial ''extern foo(a) extern bar(b)'')"
  let ?s = "HandleExtern ?s0"
  have s: "NamedValues ?s ''a'' = Some (Some (Argument 0 0))"
    by (simp add: run_eval)
  have p: "ParseExtern ?s = (Some (PrototypeAST ''bar'' [''b'']), snd (ParseExtern ?s))
      \<and> PrototypeAST_Codegen (PrototypeAST ''bar'' [''b'']) (snd (ParseExtern ?s))
          = (Some 1, snd (PrototypeAST_Codegen (PrototypeAST ''bar'' [''b'']) (snd (ParseExtern ?s))))"
    by (simp add: run_eval)
  note A = extern_binds_parameters [where s = ?s and Name = "''bar''" and Args = "[''b'']",
      THEN conjunct2, THEN conjunct1, rule_format, OF p]
  have c: "''a'' \<notin> set []" by simp
  note C = extern_binds_parameters [where s = "HandleExtern ?s" and x = "''a''" and Args' = "[]"
      and Name' = "[]" and Body = "NumberExprAST ''1''",
      THEN conjunct2, THEN conjunct2, rule_format, OF c]
  show ?thesis using A C s by simp
qed

section \<open>The lexer on a given text\<close>

lemma reads_seek [simp]: "reads (seek w s) w"
  by (cases w) (simp_all add: reads_def seek_def)

lemma seek_same: "reads s w \<Longrightarrow> seek w s = s"
  by (cases w) (simp_all add: reads_def seek_def)

lemma seek_seek [simp]: "seek w (seek v s) = seek w s"
  by (simp add: seek_def)

lemma seek_fields [simp]:
  "IdentifierStr (seek w s) = IdentifierStr s" "NumVal (seek w s) = NumVal s"
  "CurTok (seek w s) = CurTok s" "stderr (seek w s) = stderr s"
  "NamedValues (seek w s) = NamedValues s" "TheModule (seek w s) = TheModule s"
  "next_id (seek w s) = next_id s"
  by (simp_all add: seek_def)

lemma seek_upd:
  "seek w (s\<lparr>IdentifierStr := i\<rparr>) = (seek w s)\<lparr>IdentifierStr := i\<rparr>"
  "seek w (s\<lparr>NumVal := v\<rparr>) = (seek w s)\<lparr>NumVal := v\<rparr>"
  "seek w (s\<lparr>CurTok := t\<rparr>) = (seek w s)\<lparr>CurTok := t\<rparr>"
  by (simp_all add: seek_def)

lemma reads_upd [simp]:
  "reads (s\<lparr>IdentifierStr := i\<rparr>) w = reads s w"
  "reads (s\<lparr>NumVal := v\<rparr>) w = reads s w"
  "reads (s\<lparr>CurTok := t\<rparr>) w = reads s w"
  "reads (s\<lparr>stderr := e\<rparr>) w = reads s w"
  by (simp_all add: reads_def split: list.splits)

lemma reads_Cons: "reads s (c # w) \<Longrightarrow> LastChar s = of_char c"
  by (simp add: reads_def)

lemma advance_seek: "reads s (c # w) \<Longrightarrow> advance s = seek w s"
  by (cases w) (simp_all add: reads_def seek_def advance_def getchar_def)

lemma skip_space_text:
  "reads s (ws @ w) \<Longrightarrow> is_space_text ws \<Longrightarrow> \<not> starts_with isspace w \<Longrightarrow> skip_space s = seek w s"
proof (induction ws arbitrary: s)
  case Nil
  then have "\<not> isspace (LastChar s)"
    by (cases w) (simp_all add: reads_def starts_with_def)
  then show ?case using Nil by (simp add: skip_space_id seek_same)
next
  case (Cons c ws)
  then have sp: "isspace (LastChar s)" by (simp add: reads_def is_space_text_def)
  have adv: "advance s = seek (ws @ w) s" using Cons.prems(1) advance_seek [of s c "ws @ w"] by simp
  have "skip_space s = skip_space (advance s)" using sp by (subst skip_space.simps) simp
  also have "\<dots> = seek w (seek (ws @ w) s)"
    using Cons.IH [of "seek (ws @ w) s"] Cons.prems adv by (simp add: is_space_text_def)
  finally show ?case by simp
qed

lemma read_ident_text:
  "reads s (c # cs @ w) \<Longrightarrow> list_all (\<lambda>c. isalnum (of_char c)) cs \<Longrightarrow> \<not> starts_with isalnum w
   \<Longrightarrow> read_ident s = (seek w s)\<lparr>IdentifierStr := IdentifierStr s @ cs\<rparr>"
proof (induction cs arbitrary: s c)
  case Nil
  have adv: "advance s = seek w s" using Nil.prems(1) advance_seek [of s c w] by simp
  have "\<not> isalnum (LastChar (seek w s))"
    using Nil.prems(3) by (cases w) (simp_all add: seek_def starts_with_def)
  then show ?case using adv read_ident.simps [of s] by (simp add: Let_def)
next
  case (Cons d cs)
  have adv: "advance s = seek (d # cs @ w) s"
    using Cons.prems(1) advance_seek [of s c "d # cs @ w"] by simp
  let ?s1 = "seek (d # cs @ w) s"
  have l: "LastChar ?s1 = of_char d" by (simp add: seek_def)
  then have an: "isalnum (LastChar ?s1)" using Cons.prems(2) by simp
  let ?s2 = "?s1\<lparr>IdentifierStr := IdentifierStr ?s1 @ [char_of (LastChar ?s1)]\<rparr>"
  have "read_ident s = read_ident ?s2"
    using an adv read_ident.simps [of s] by (simp add: Let_def)
  also have "\<dots> = (seek w ?s2)\<lparr>IdentifierStr := IdentifierStr ?s2 @ cs\<rparr>"
    using Cons.IH [of ?s2 d] Cons.prems by simp
  also have "\<dots> = (seek w s)\<lparr>IdentifierStr := IdentifierStr s @ d # cs\<rparr>"
    by (simp add: seek_upd l)
  finally show ?case .
qed

lemma read_number_text:
  "reads s (c # cs @ w) \<Longrightarrow> list_all (\<lambda>c. isdigit (of_char c) \<or> c = CHR ''.'') cs
   \<Longrightarrow> \<not> starts_with num_char w
   \<Longrightarrow> read_number pre s = (pre @ c # cs, seek w s)"
proof (induction cs arbitrary: s c pre)
  case Nil
  have adv: "advance s = seek w s" using Nil.prems(1) advance_seek [of s c w] by simp
  have "\<not> (isdigit (LastChar (seek w s)) \<or> LastChar (seek w s) = of_char CHR ''.'')"
    using Nil.prems(3) by (cases w) (simp_all add: seek_def starts_with_def num_char_def cclass)
  then show ?case
    using adv read_number.simps [of pre s] reads_Cons [OF Nil.prems(1)] by (simp add: Let_def)
next
  case (Cons d cs)
  have adv: "advance s = seek (d # cs @ w) s"
    using Cons.prems(1) advance_seek [of s c "d # cs @ w"] by simp
  let ?s1 = "seek (d # cs @ w) s"
  have l: "LastChar ?s1 = of_char d" by (simp add: seek_def)
  then have an: "isdigit (LastChar ?s1) \<or> LastChar ?s1 = of_char CHR ''.''"
    using Cons.prems(2) by auto
  have "read_number pre s = read_number (pre @ [c]) ?s1"
    using an adv read_number.simps [of pre s] reads_Cons [OF Cons.prems(1)] by (simp add: Let_def)
  also have "\<dots> = ((pre @ [c]) @ d # cs, seek w ?s1)"
    using Cons.IH [of ?s1 d "pre @ [c]"] Cons.prems by simp
  finally show ?case by simp
qed

lemma gettok_skip: "skip_space s = skip_space s' \<Longrightarrow> gettok s = gettok s'"
  using gettok.simps [of s] gettok.simps [of s'] by simp

lemma skip_space_idem: "skip_space (skip_space s) = skip_space s"
  using skip_space_not_space [of s] by (simp add: skip_space_id)

lemma gettok_space_text:
  assumes "reads s (ws @ w)" "is_space_text ws" "\<not> starts_with isspace w"
  shows "gettok s = gettok (seek w s)"
proof -
  have "skip_space s = seek w s" using assms by (rule skip_space_text)
  then have "skip_space (seek w s) = skip_space s" using skip_space_idem [of s] by simp
  then show ?thesis using gettok_skip by metis
qed

lemma space_not_others:
  "isspace c \<Longrightarrow> \<not> isalpha c \<and> \<not> isdigit c \<and> \<not> isalnum c \<and> c \<noteq> of_char CHR ''.''"
  by (auto simp: cclass)

lemma alpha_not_others: "isalpha c \<Longrightarrow> \<not> isspace c \<and> isalnum c"
  by (auto simp: cclass)

lemma num_char_not_others: "num_char c \<Longrightarrow> \<not> isspace c \<and> \<not> isalpha c"
  by (auto simp: cclass num_char_def)

lemma unrecognized_not_others:
  "unrecognized c \<Longrightarrow> \<not> isspace c \<and> \<not> isalpha c \<and> \<not> isdigit c \<and> \<not> isalnum c \<and> \<not> num_char c"
  by (auto simp: unrecognized_def isalnum_def num_char_def)

lemma gettok_identifier_text:
  assumes r: "reads s (n @ w)" and n: "is_identifier n" and w: "\<not> starts_with isalnum w"
  shows "gettok s = (keyword n, (seek w s)\<lparr>IdentifierStr := n\<rparr>)"
proof -
  from n obtain c cs where ccs: "n = c # cs" "isalpha (of_char c)"
    "list_all (\<lambda>c. isalnum (of_char c)) cs"
    by (cases n) (auto simp: is_identifier_def starts_with_def)
  have l: "LastChar s = of_char c" using r ccs by (simp add: reads_def)
  then have ss: "skip_space s = s" using ccs alpha_not_others by (simp add: skip_space_id)
  let ?s0 = "s\<lparr>IdentifierStr := [char_of (LastChar s)]\<rparr>"
  have "read_ident ?s0 = (seek w ?s0)\<lparr>IdentifierStr := IdentifierStr ?s0 @ cs\<rparr>"
    using read_ident_text [of ?s0 c cs w] r ccs w by simp
  then have "read_ident ?s0 = (seek w s)\<lparr>IdentifierStr := n\<rparr>"
    using l ccs by (simp add: seek_upd)
  then have E: "read_ident ((skip_space s)\<lparr>IdentifierStr := [char_of (LastChar (skip_space s))]\<rparr>)
      = (seek w s)\<lparr>IdentifierStr := n\<rparr>"
    using ss by simp
  have "isalpha (LastChar (skip_space s))" using ss l ccs by simp
  note G = gettok_ident [OF this]
  show ?thesis unfolding G Let_def E keyword_def by simp
qed

lemma gettok_numeral_text:
  assumes r: "reads s (l @ w)" and n: "is_numeral l" and w: "\<not> starts_with num_char w"
  shows "gettok s = (tok_number, (seek w s)\<lparr>NumVal := l\<rparr>)"
proof -
  from n obtain c cs where ccs: "l = c # cs" "num_char (of_char c)"
    "list_all (\<lambda>c. isdigit (of_char c) \<or> c = CHR ''.'') cs"
    by (cases l) (auto simp: is_numeral_def num_char_def)
  have l: "LastChar s = of_char c" using r ccs by (simp add: reads_def)
  then have ss: "skip_space s = s" using ccs num_char_not_others by (simp add: skip_space_id)
  have "read_number [] s = (l, seek w s)"
    using read_number_text [of s c cs w "[]"] r ccs w by simp
  moreover have "\<not> isalpha (LastChar s)" using l ccs num_char_not_others by simp
  moreover have "isdigit (LastChar s) \<or> LastChar s = of_char CHR ''.''"
    using l ccs by (simp add: num_char_def)
  ultimately show ?thesis using gettok_number [of s] ss by simp
qed

lemma gettok_char_text:
  assumes r: "reads s (c # w)" and c: "unrecognized (of_char c)"
  shows "gettok s = (of_char c, seek w s)"
proof -
  have l: "LastChar s = of_char c" using r by (simp add: reads_def)
  then have "skip_space s = s" using c by (simp add: skip_space_id unrecognized_def)
  then show ?thesis
    using gettok_char [of s] l c advance_seek [OF r] by (simp add: unrecognized_def)
qed

lemma gettok_eof_text:
  assumes r: "reads s []"
  shows "gettok s = (tok_eof, s)"
proof -
  have l: "LastChar s = EOF" using r by (simp add: reads_def)
  then have "skip_space s = s" by (simp add: skip_space_id)
  then show ?thesis using gettok_eof [of s] l by simp
qed

lemma starts_with_Cons [simp]: "starts_with P (c # w) = P (of_char c)"
  by (simp add: starts_with_def)

lemma starts_with_Nil [simp]: "\<not> starts_with P []"
  by (simp add: starts_with_def)

lemma starts_with_append: "u \<noteq> [] \<Longrightarrow> starts_with P (u @ w) = starts_with P u"
  by (cases u) simp_all

text \<open>\<open>getNextToken\<close> on a text that starts with white space and a token.\<close>

lemma getNextToken_char_text:
  assumes "reads s (ws @ c # w)" "is_space_text ws" "unrecognized (of_char c)"
  shows "getNextToken s = (seek w s)\<lparr>CurTok := of_char c\<rparr>"
proof -
  have "\<not> starts_with isspace (c # w)" using assms(3) unrecognized_not_others by simp
  then have "gettok s = gettok (seek (c # w) s)"
    using gettok_space_text [OF assms(1,2)] by simp
  also have "\<dots> = (of_char c, seek w (seek (c # w) s))"
    using gettok_char_text [of "seek (c # w) s" c w] assms(3) by simp
  finally show ?thesis by (simp add: getNextToken_def)
qed

lemma getNextToken_identifier_text:
  assumes "reads s (ws @ n @ w)" "is_space_text ws" "is_identifier n" "\<not> starts_with isalnum w"
  shows "getNextToken s = (seek w s)\<lparr>IdentifierStr := n, CurTok := keyword n\<rparr>"
proof -
  have "n \<noteq> []" "starts_with isalpha n" using assms(3) by (auto simp: is_identifier_def)
  then have "\<not> starts_with isspace (n @ w)"
    using alpha_not_others by (cases n) auto
  then have "gettok s = gettok (seek (n @ w) s)"
    using gettok_space_text [OF assms(1,2)] by simp
  also have "\<dots> = (keyword n, (seek w (seek (n @ w) s))\<lparr>IdentifierStr := n\<rparr>)"
    using gettok_identifier_text [of "seek (n @ w) s" n w] assms(3,4) by simp
  finally show ?thesis by (simp add: getNextToken_def)
qed

lemma getNextToken_numeral_text:
  assumes "reads s (l @ w)" "is_numeral l" "\<not> starts_with num_char w"
  shows "getNextToken s = (seek w s)\<lparr>NumVal := l, CurTok := tok_number\<rparr>"
  using gettok_numeral_text [OF assms] by (simp add: getNextToken_def)

lemma getNextToken_eof_text:
  assumes "reads s []"
  shows "getNextToken s = s\<lparr>CurTok := tok_eof\<rparr>"
  using gettok_eof_text [OF assms] by (simp add: getNextToken_def)

text \<open>The lexer skips the white space and the comments before a token.\<close>

lemma skip_comment_text:
  "reads s (c # w) \<Longrightarrow> skip_comment s = seek (dropWhile (\<lambda>d. d \<noteq> CHR 0x0A \<and> d \<noteq> CHR 0x0D) w) s"
proof (induction w arbitrary: s c)
  case Nil
  have adv: "advance s = seek [] s" using Nil advance_seek [of s c "[]"] by simp
  have "LastChar (seek [] s) = EOF" by (simp add: seek_def)
  then show ?case using adv skip_comment_unfold [of s] by simp
next
  case (Cons d w)
  have adv: "advance s = seek (d # w) s" using Cons.prems advance_seek [of s c "d # w"] by simp
  have l: "LastChar (seek (d # w) s) = of_char d" by (simp add: seek_def)
  have nl: "((of_char d :: int) = of_char CHR 0x0A) = (d = CHR 0x0A)"
    "((of_char d :: int) = of_char CHR 0x0D) = (d = CHR 0x0D)"
    by (simp_all only: of_char_eq_iff)
  show ?case
  proof (cases "d \<noteq> CHR 0x0A \<and> d \<noteq> CHR 0x0D")
    case True
    then have "skip_comment s = skip_comment (seek (d # w) s)"
      using adv l nl skip_comment_unfold [of s] by (simp only: ) simp
    also have "\<dots> = seek (dropWhile (\<lambda>d. d \<noteq> CHR 0x0A \<and> d \<noteq> CHR 0x0D) w) (seek (d # w) s)"
      using Cons.IH [of "seek (d # w) s" d] by simp
    finally show ?thesis using True by simp
  next
    case False
    then have "skip_comment s = seek (d # w) s"
      using adv l nl skip_comment_unfold [of s] by (simp only: ) auto
    then show ?thesis using False by auto
  qed
qed

lemma gettok_strip: "gettok (seek w s) = gettok (seek (strip w) s)"
proof (induction w rule: strip.induct)
  case 1
  then show ?case by simp
next
  case (2 c w)
  let ?s0 = "seek (c # w) s"
  define w1 where "w1 = dropWhile (\<lambda>d. d \<noteq> CHR 0x0A \<and> d \<noteq> CHR 0x0D) w"
  have r: "reads ?s0 (c # w)" by simp
  have l: "LastChar ?s0 = of_char c" by (simp add: seek_def)
  show ?case
  proof (cases "isspace (of_char c)")
    case True
    have "skip_space ?s0 = skip_space (advance ?s0)"
      using True l by (subst skip_space.simps) simp
    also have "advance ?s0 = seek w s" using advance_seek [OF r] by simp
    finally have "gettok ?s0 = gettok (seek w s)" by (rule gettok_skip)
    then show ?thesis using 2(1) True by simp
  next
    case False
    then have ss: "skip_space ?s0 = ?s0" using l by (simp add: skip_space_id)
    show ?thesis
    proof (cases "c = CHR ''#''")
      case True
      have c: "LastChar (skip_space ?s0) = of_char CHR ''#''" using ss l True by simp
      have sc: "skip_comment ?s0 = seek w1 s"
        using skip_comment_text [OF r] by (simp add: w1_def)
      have g: "gettok ?s0 = (if LastChar (seek w1 s) \<noteq> EOF then gettok (seek w1 s)
          else (tok_eof, seek w1 s))"
        using gettok_comment [OF c] by (simp only: ss sc Let_def)
      have st: "strip (c # w) = strip w1" using True False by (simp add: w1_def)
      have ih: "gettok (seek w1 s) = gettok (seek (strip w1) s)"
        using 2(2) [OF False True] by (simp only: w1_def)
      show ?thesis
      proof (cases w1)
        case Nil
        have "LastChar (seek w1 s) = EOF" by (simp add: Nil seek_def)
        then have "gettok ?s0 = (tok_eof, seek [] s)" using g Nil by simp
        moreover have "gettok (seek [] s) = (tok_eof, seek [] s)"
          using gettok_eof_text [of "seek [] s"] by simp
        moreover have "strip (c # w) = []" using st Nil by simp
        ultimately show ?thesis by (simp only:)
      next
        case (Cons d ds)
        then have "LastChar (seek w1 s) \<noteq> EOF" by (simp add: seek_def)
        then have "gettok ?s0 = gettok (seek w1 s)" using g by simp
        then show ?thesis using ih by (simp only: st)
      qed
    next
      case False
      then show ?thesis using \<open>\<not> isspace (of_char c)\<close> by simp
    qed
  qed
qed

lemma strip_head: "strip w = c # w' \<Longrightarrow> \<not> isspace (of_char c) \<and> c \<noteq> CHR ''#''"
proof (induction w rule: strip.induct)
  case 1
  then show ?case by simp
next
  case (2 d w)
  show ?case
  proof (cases "isspace (of_char d)")
    case True
    then show ?thesis using 2(1,3) by simp
  next
    case False
    show ?thesis
    proof (cases "d = CHR ''#''")
      case True
      then show ?thesis using 2(2,3) False by simp
    next
      case ne: False
      then have "c = d" using 2(3) False by simp
      then show ?thesis using False ne by simp
    qed
  qed
qed

lemma takeWhile_all: "list_all P (takeWhile P xs)"
  by (induction xs) simp_all

lemma dropWhile_head: "dropWhile P xs = d # ds \<Longrightarrow> \<not> P d"
  by (induction xs) (auto split: if_splits)

lemma strip_cases:
  "strip w = []
   \<or> (\<exists>c w'. strip w = c # w' \<and> unrecognized (of_char c))
   \<or> (\<exists>n w'. strip w = n @ w' \<and> is_identifier n \<and> \<not> starts_with isalnum w')
   \<or> (\<exists>l w'. strip w = l @ w' \<and> is_numeral l \<and> \<not> starts_with num_char w')"
proof (cases "strip w")
  case Nil
  then show ?thesis by simp
next
  case (Cons c v)
  then have h: "\<not> isspace (of_char c)" "c \<noteq> CHR ''#''" using strip_head by blast+
  have ne: "(of_char c :: int) \<noteq> of_char CHR ''#''" using h(2) by (simp only: of_char_eq_iff) simp
  consider (a) "isalpha (of_char c)" | (n) "num_char (of_char c)"
    | (u) "\<not> isalpha (of_char c)" "\<not> num_char (of_char c)" by blast
  then show ?thesis
  proof cases
    case a
    define P where "P = (\<lambda>c. isalnum (of_char c))"
    define n where "n = takeWhile P (c # v)"
    define w' where "w' = dropWhile P (c # v)"
    have "P c" using a by (simp add: P_def isalnum_def)
    then have "n = c # takeWhile P v" by (simp add: n_def)
    moreover have "list_all P n" unfolding n_def by (rule takeWhile_all)
    ultimately have "is_identifier n"
      using a by (simp add: is_identifier_def P_def)
    moreover have "\<not> starts_with isalnum w'"
    proof (cases w')
      case Nil
      then show ?thesis by simp
    next
      case (Cons d ds)
      then have "\<not> P d" using dropWhile_head [of P "c # v" d ds] unfolding w'_def by blast
      then show ?thesis using Cons by (simp add: P_def)
    qed
    moreover have "strip w = n @ w'" unfolding n_def w'_def using Cons by simp
    ultimately show ?thesis by blast
  next
    case n
    define P where "P = (\<lambda>c. isdigit (of_char c) \<or> c = CHR ''.'')"
    define l where "l = takeWhile P (c # v)"
    define w' where "w' = dropWhile P (c # v)"
    have nc: "num_char (of_char d) = P d" for d
      unfolding P_def by (simp only: num_char_def of_char_eq_iff)
    have "P c" using n nc by simp
    then have "l = c # takeWhile P v" by (simp add: l_def)
    moreover have "list_all P l" unfolding l_def by (rule takeWhile_all)
    ultimately have "is_numeral l"
      by (simp add: is_numeral_def P_def)
    moreover have "\<not> starts_with num_char w'"
    proof (cases w')
      case Nil
      then show ?thesis by simp
    next
      case (Cons d ds)
      then have "\<not> P d" using dropWhile_head [of P "c # v" d ds] unfolding w'_def by blast
      then show ?thesis using Cons nc by simp
    qed
    moreover have "strip w = l @ w'" unfolding l_def w'_def using Cons by simp
    ultimately show ?thesis by blast
  next
    case u
    have "(of_char c :: int) \<noteq> EOF" by simp
    then have "unrecognized (of_char c)"
      using u h ne by (simp add: unrecognized_def num_char_def)
    then show ?thesis using Cons by blast
  qed
qed


lemma initial_seek: "initial inp = seek (CHR '' '' # inp) (initial inp)"
  by (simp add: initial_def seek_def)

lemma strip_initial: "strip (CHR '' '' # inp) = strip inp"
  by (simp add: isspace_def)

text \<open>
  C9. The lexer never fails. \<open>gettok\<close> is a total function (its termination is proved
  above), so it returns a token for every input, and the token is determined by the text
  that is left once the white space and the comments before it are skipped, whatever the
  lookahead and the input are: if nothing is left the token is \<open>tok_eof\<close>, and the lexer
  stands at the end of the input; if a character is left that is not a letter, a digit or
  a decimal point it is returned as the token, with the lookahead advanced by one
  character; an identifier gives its keyword or \<open>tok_identifier\<close>, a numeral \<open>tok_number\<close>;
  and there is no other case. So it is in the state in which \<^verbatim>\<open>main\<close> starts. Moreover, in
  every state: at the end of the input \<open>gettok\<close> returns \<open>tok_eof\<close>; an unrecognised lookahead
  character is returned as the token; every token is one of the five token codes or such
  a character; every token but \<open>tok_eof\<close> consumes input; and a token that cannot start an
  expression is rejected by the parser, in \<open>ParsePrimary\<close>.
\<close>

theorem gettok_never_fails:
  "(strip w = [] \<longrightarrow> gettok (seek w s) = (tok_eof, seek [] s))
   \<and> (\<forall>c w'. strip w = c # w' \<and> unrecognized (of_char c) \<longrightarrow>
        gettok (seek w s) = (of_char c, seek w' s))
   \<and> (\<forall>n w'. strip w = n @ w' \<and> is_identifier n \<and> \<not> starts_with isalnum w' \<longrightarrow>
        gettok (seek w s) = (keyword n, (seek w' s)\<lparr>IdentifierStr := n\<rparr>))
   \<and> (\<forall>l w'. strip w = l @ w' \<and> is_numeral l \<and> \<not> starts_with num_char w' \<longrightarrow>
        gettok (seek w s) = (tok_number, (seek w' s)\<lparr>NumVal := l\<rparr>))
   \<and> (strip w = []
       \<or> (\<exists>c w'. strip w = c # w' \<and> unrecognized (of_char c))
       \<or> (\<exists>n w'. strip w = n @ w' \<and> is_identifier n \<and> \<not> starts_with isalnum w')
       \<or> (\<exists>l w'. strip w = l @ w' \<and> is_numeral l \<and> \<not> starts_with num_char w'))
   \<and> (strip inp = [] \<longrightarrow> gettok (initial inp) = (tok_eof, seek [] (initial inp)))
   \<and> (\<forall>c w'. strip inp = c # w' \<and> unrecognized (of_char c) \<longrightarrow>
        gettok (initial inp) = (of_char c, seek w' (initial inp)))
   \<and> (LastChar s = EOF \<longrightarrow> gettok s = (tok_eof, s))
   \<and> (unrecognized (LastChar s) \<longrightarrow> gettok s = (LastChar s, advance s))
   \<and> (is_token_code (fst (gettok s)) \<or> unrecognized (fst (gettok s)))
   \<and> (fst (gettok s) \<noteq> tok_eof \<longrightarrow> unread (snd (gettok s)) < unread s)
   \<and> (CurTok s \<noteq> tok_identifier \<and> CurTok s \<noteq> tok_number \<and> CurTok s \<noteq> of_char CHR ''(''
        \<longrightarrow> ParsePrimary (Suc n) s
            = Some (None, Error ''unknown token when expecting an expression'' s))"
proof -
  have eof: "gettok (seek v t) = (tok_eof, seek [] t)" if "strip v = []" for v t
  proof -
    have "gettok (seek v t) = gettok (seek [] t)" using gettok_strip [of v t] that by simp
    then show ?thesis using gettok_eof_text [of "seek [] t"] by simp
  qed
  have chr: "gettok (seek v t) = (of_char c, seek w' t)"
    if "strip v = c # w' \<and> unrecognized (of_char c)" for v t c w'
  proof -
    have "gettok (seek v t) = gettok (seek (c # w') t)" using gettok_strip [of v t] that by simp
    then show ?thesis using gettok_char_text [of "seek (c # w') t" c w'] that by simp
  qed
  show ?thesis
  proof (intro conjI allI impI)
    assume "strip w = []"
    then show "gettok (seek w s) = (tok_eof, seek [] s)" by (rule eof)
  next
    fix c w' assume "strip w = c # w' \<and> unrecognized (of_char c)"
    then show "gettok (seek w s) = (of_char c, seek w' s)" by (rule chr)
  next
    fix n w' assume a: "strip w = n @ w' \<and> is_identifier n \<and> \<not> starts_with isalnum w'"
    then have "gettok (seek w s) = gettok (seek (n @ w') s)" using gettok_strip [of w s] by simp
    then show "gettok (seek w s) = (keyword n, (seek w' s)\<lparr>IdentifierStr := n\<rparr>)"
      using gettok_identifier_text [of "seek (n @ w') s" n w'] a by simp
  next
    fix l w' assume a: "strip w = l @ w' \<and> is_numeral l \<and> \<not> starts_with num_char w'"
    then have "gettok (seek w s) = gettok (seek (l @ w') s)" using gettok_strip [of w s] by simp
    then show "gettok (seek w s) = (tok_number, (seek w' s)\<lparr>NumVal := l\<rparr>)"
      using gettok_numeral_text [of "seek (l @ w') s" l w'] a by simp
  next
    show "strip w = []
       \<or> (\<exists>c w'. strip w = c # w' \<and> unrecognized (of_char c))
       \<or> (\<exists>n w'. strip w = n @ w' \<and> is_identifier n \<and> \<not> starts_with isalnum w')
       \<or> (\<exists>l w'. strip w = l @ w' \<and> is_numeral l \<and> \<not> starts_with num_char w')"
      by (rule strip_cases)
  next
    assume "strip inp = []"
    then have "strip (CHR '' '' # inp) = []" by (simp only: strip_initial)
    from eof [OF this, of "initial inp"]
    show "gettok (initial inp) = (tok_eof, seek [] (initial inp))"
      by (simp only: initial_seek [symmetric])
  next
    fix c w' assume "strip inp = c # w' \<and> unrecognized (of_char c)"
    then have "strip (CHR '' '' # inp) = c # w' \<and> unrecognized (of_char c)"
      by (simp only: strip_initial)
    from chr [OF this, of "initial inp"]
    show "gettok (initial inp) = (of_char c, seek w' (initial inp))"
      by (simp only: initial_seek [symmetric])
  next
    assume "LastChar s = EOF"
    then show "gettok s = (tok_eof, s)"
      by (simp add: gettok_eof skip_space_id)
  next
    assume u: "unrecognized (LastChar s)"
    then have "skip_space s = s" by (simp add: unrecognized_def skip_space_id)
    then show "gettok s = (LastChar s, advance s)"
      using u gettok_char [of s] by (simp add: unrecognized_def)
  next
    show "is_token_code (fst (gettok s)) \<or> unrecognized (fst (gettok s))"
      by (rule gettok_class)
  next
    assume "fst (gettok s) \<noteq> tok_eof"
    then show "unread (snd (gettok s)) < unread s" by (rule gettok_progress)
  next
    assume "CurTok s \<noteq> tok_identifier \<and> CurTok s \<noteq> tok_number \<and> CurTok s \<noteq> of_char CHR ''(''"
    then show "ParsePrimary (Suc n) s
        = Some (None, Error ''unknown token when expecting an expression'' s)"
      by simp
  qed
qed


theorem gettok_never_fails_witness:
  "gettok (initial []) = (tok_eof, seek [] (initial []))
   \<and> gettok (initial [CHR 0x0A]) = (tok_eof, seek [] (initial [CHR 0x0A]))
   \<and> gettok (initial ''#c'') = (tok_eof, seek [] (initial ''#c''))
   \<and> gettok (initial ('' #c'' @ [CHR 0x0A] @ '' @x''))
      = (of_char CHR ''@'', seek ''x'' (initial ('' #c'' @ [CHR 0x0A] @ '' @x'')))
   \<and> gettok (seek (''#c'' @ [CHR 0x0D] @ ''def+'') (initial []))
      = (tok_def, (seek ''+'' (initial []))\<lparr>IdentifierStr := ''def''\<rparr>)
   \<and> gettok (seek '' 1.5x'' (initial [])) = (tok_number, (seek ''x'' (initial []))\<lparr>NumVal := ''1.5''\<rparr>)
   \<and> gettok (advance (initial ''@x'')) = (of_char CHR ''@'', advance (advance (initial ''@x'')))
   \<and> gettok (advance (initial [])) = (tok_eof, advance (initial []))
   \<and> unread (snd (gettok (initial '' @x''))) < unread (initial '' @x'')
   \<and> ParsePrimary (Suc 0) (getNextToken (initial '')''))
       = Some (None, Error ''unknown token when expecting an expression'' (getNextToken (initial '')'')))"
proof -
  have s1: "strip [] = []" "strip [CHR 0x0A] = []" "strip ''#c'' = []"
    by (simp_all add: cclass)
  have s2: "strip ('' #c'' @ [CHR 0x0A] @ '' @x'') = CHR ''@'' # ''x'' \<and> unrecognized (of_char CHR ''@'')"
    by (simp add: cclass unrecognized_def)
  have s3: "strip (''#c'' @ [CHR 0x0D] @ ''def+'') = ''def'' @ ''+'' \<and> is_identifier ''def''
      \<and> \<not> starts_with isalnum ''+''"
    by (simp add: cclass is_identifier_def starts_with_def)
  have s4: "strip '' 1.5x'' = ''1.5'' @ ''x'' \<and> is_numeral ''1.5'' \<and> \<not> starts_with num_char ''x''"
    by (simp add: cclass is_numeral_def starts_with_def num_char_def)
  have k: "keyword ''def'' = tok_def" by (simp add: keyword_def)
  have 1: "unrecognized (LastChar (advance (initial ''@x'')))"
    by (simp add: unrecognized_def advance_def getchar_def initial_def cclass)
  have 2: "LastChar (advance (initial [])) = EOF"
    by (simp add: advance_def getchar_def initial_def)
  have 3: "fst (gettok (initial '' @x'')) \<noteq> tok_eof"
    by (simp add: lex_eval)
  have 4: "CurTok (getNextToken (initial '')'')) \<noteq> tok_identifier
      \<and> CurTok (getNextToken (initial '')'')) \<noteq> tok_number
      \<and> CurTok (getNextToken (initial '')'')) \<noteq> of_char CHR ''(''"
    by (simp add: lex_eval)
  note A1 = gettok_never_fails [where inp = "[]", THEN conjunct2, THEN conjunct2, THEN conjunct2, THEN conjunct2, THEN conjunct2,
      THEN conjunct1, rule_format, OF s1(1)]
  note A2 = gettok_never_fails [where inp = "[CHR 0x0A]", THEN conjunct2, THEN conjunct2, THEN conjunct2, THEN conjunct2, THEN conjunct2,
      THEN conjunct1, rule_format, OF s1(2)]
  note A3 = gettok_never_fails [where inp = "''#c''", THEN conjunct2, THEN conjunct2, THEN conjunct2, THEN conjunct2, THEN conjunct2,
      THEN conjunct1, rule_format, OF s1(3)]
  note A4 = gettok_never_fails [where inp = "'' #c'' @ [CHR 0x0A] @ '' @x''", THEN conjunct2, THEN conjunct2, THEN conjunct2, THEN conjunct2, THEN conjunct2,
      THEN conjunct2, THEN conjunct1, rule_format, OF s2]
  note A5 = gettok_never_fails [where w = "''#c'' @ [CHR 0x0D] @ ''def+''" and s = "initial []",
      THEN conjunct2, THEN conjunct2, THEN conjunct1, rule_format, OF s3]
  note A6 = gettok_never_fails [where w = "'' 1.5x''" and s = "initial []",
      THEN conjunct2, THEN conjunct2, THEN conjunct2, THEN conjunct1, rule_format, OF s4]
  note B1 = gettok_never_fails [where s = "advance (initial ''@x'')", THEN conjunct2, THEN conjunct2, THEN conjunct2, THEN conjunct2, THEN conjunct2, THEN conjunct2, THEN conjunct2,
      THEN conjunct2, THEN conjunct1, rule_format, OF 1]
  note B2 = gettok_never_fails [where s = "advance (initial [])", THEN conjunct2, THEN conjunct2, THEN conjunct2, THEN conjunct2, THEN conjunct2, THEN conjunct2, THEN conjunct2,
      THEN conjunct1, rule_format, OF 2]
  note B3 = gettok_never_fails [where s = "initial '' @x''", THEN conjunct2, THEN conjunct2, THEN conjunct2, THEN conjunct2, THEN conjunct2, THEN conjunct2, THEN conjunct2,
      THEN conjunct2, THEN conjunct2, THEN conjunct2, THEN conjunct1, rule_format, OF 3]
  note B4 = gettok_never_fails [where s = "getNextToken (initial '')'')" and n = 0, THEN conjunct2, THEN conjunct2, THEN conjunct2, THEN conjunct2, THEN conjunct2, THEN conjunct2, THEN conjunct2,
      THEN conjunct2, THEN conjunct2, THEN conjunct2, THEN conjunct2, rule_format, OF 4]
  have B1': "gettok (advance (initial ''@x'')) = (of_char CHR ''@'', advance (advance (initial ''@x'')))"
    using B1 by (simp add: advance_def getchar_def initial_def)
  show ?thesis using A1 A2 A3 A4 A5 [unfolded k] A6 B1' B2 B3 B4 by (intro conjI)
qed

section \<open>Prototypes\<close>

lemma of_char_not_token [simp]:
  "(of_char c :: int) \<noteq> tok_identifier" "(of_char c :: int) \<noteq> tok_number"
  "(of_char c :: int) \<noteq> tok_eof" "(of_char c :: int) \<noteq> tok_def" "(of_char c :: int) \<noteq> tok_extern"
proof -
  have "(0::int) \<le> of_char c" by (metis of_char_mod_256 pos_mod_sign zero_less_numeral)
  then show "(of_char c :: int) \<noteq> tok_identifier" "(of_char c :: int) \<noteq> tok_number"
    "(of_char c :: int) \<noteq> tok_eof" "(of_char c :: int) \<noteq> tok_def" "(of_char c :: int) \<noteq> tok_extern"
    by (simp_all add: tok_identifier_def tok_number_def tok_eof_def tok_def_def tok_extern_def)
qed

lemma unrecognized_parens [simp]:
  "unrecognized 40" "unrecognized 41" "unrecognized 44"
  by (simp_all add: unrecognized_def cclass)

lemma gettok_token_text: "fst (gettok (seek w s)) = fst (gettok (seek w s'))"
proof -
  have e: "gettok (seek w t) = gettok (seek (strip w) t)" for t by (rule gettok_strip)
  consider (eof) "strip w = []"
    | (chr) c w' where "strip w = c # w'" "unrecognized (of_char c)"
    | (ident) n w' where "strip w = n @ w'" "is_identifier n" "\<not> starts_with isalnum w'"
    | (num) l w' where "strip w = l @ w'" "is_numeral l" "\<not> starts_with num_char w'"
    using strip_cases [of w] by blast
  then show ?thesis
  proof cases
    case eof
    then show ?thesis
      using gettok_eof_text [of "seek [] s"] gettok_eof_text [of "seek [] s'"] by (simp add: e)
  next
    case chr
    then show ?thesis
      using gettok_char_text [of "seek (c # w') s" c w'] gettok_char_text [of "seek (c # w') s'" c w']
      by (simp add: e)
  next
    case ident
    then show ?thesis
      using gettok_identifier_text [of "seek (n @ w') s" n w']
        gettok_identifier_text [of "seek (n @ w') s'" n w']
      by (simp add: e)
  next
    case num
    then show ?thesis
      using gettok_numeral_text [of "seek (l @ w') s" l w']
        gettok_numeral_text [of "seek (l @ w') s'" l w']
      by (simp add: e)
  qed
qed

lemma ParsePrototype_args_tail:
  assumes "reads s (spaced ps @ T)" "params_ok ps" "ps = [] \<or> \<not> starts_with isalnum T"
    and "fst (gettok (seek T s)) \<noteq> tok_identifier"
  shows "\<exists>s'. ParsePrototype_args acc s = (acc @ map snd ps, s')
     \<and> CurTok s' = fst (gettok (seek T s)) \<and> backend s' = backend s"
  using assms
proof (induction ps arbitrary: s acc)
  case Nil
  then have r: "seek T s = s" by (simp add: seek_same)
  have c: "CurTok (getNextToken s) = fst (gettok s)"
    by (simp add: getNextToken_def split: prod.splits)
  then have "CurTok (getNextToken s) \<noteq> tok_identifier" using Nil.prems(4) r by simp
  then have "ParsePrototype_args acc s = (acc, getNextToken s)"
    using ParsePrototype_args.simps [of acc s] by (simp add: Let_def)
  then show ?case using c r by simp
next
  case (Cons p ps)
  obtain ws1 n where p: "p = (ws1, n)" by (cases p)
  let ?rest = "spaced ps @ T"
  have ok: "is_space_text ws1" "is_identifier n" "keyword n = tok_identifier" "params_ok ps"
    "ps = [] \<or> fst (hd ps) \<noteq> []"
    using Cons.prems(2) p by simp_all
  have nT: "\<not> starts_with isalnum T" using Cons.prems(3) by simp
  have nf: "\<not> starts_with isalnum ?rest"
  proof (cases ps)
    case Nil
    then show ?thesis using nT by simp
  next
    case (Cons q qs)
    obtain ws2 n2 where q: "q = (ws2, n2)" by (cases q)
    have "ws2 \<noteq> []" "is_space_text ws2" using ok(4,5) Cons q by simp_all
    then obtain d ds where "ws2 = d # ds" "isspace (of_char d)"
      by (cases ws2) (auto simp: is_space_text_def)
    then show ?thesis using Cons q space_not_others by simp
  qed
  let ?s1 = "(seek ?rest s)\<lparr>IdentifierStr := n, CurTok := keyword n\<rparr>"
  have g: "getNextToken s = ?s1"
    using getNextToken_identifier_text [of s ws1 n ?rest] Cons.prems(1) p ok nf by simp
  have r1: "reads ?s1 ?rest" by simp
  have t1: "fst (gettok (seek T ?s1)) = fst (gettok (seek T s))" by (rule gettok_token_text)
  then have t1': "fst (gettok (seek T ?s1)) \<noteq> tok_identifier" using Cons.prems(4) by simp
  have c1: "ps = [] \<or> \<not> starts_with isalnum T" using nT by simp
  from Cons.IH [OF r1 ok(4) c1 t1', of "acc @ [n]"]
  obtain s' where s': "ParsePrototype_args (acc @ [n]) ?s1 = (acc @ [n] @ map snd ps, s')"
    "CurTok s' = fst (gettok (seek T ?s1))" "backend s' = backend ?s1"
    by auto
  have "ParsePrototype_args acc s = ParsePrototype_args (acc @ [n]) ?s1"
    using ParsePrototype_args.simps [of acc s] g ok(3) by (simp add: Let_def)
  then show ?case using s' p t1 by (simp add: backend_def)
qed

text \<open>
  C3 as stated does not hold: between the parentheses of a prototype the parser accepts
  identifiers only, so a comma ends the list and is rejected.
\<close>

theorem prototype_rejects_comma:
  "fst (ParsePrototype (getNextToken (initial ''foo(a b)'')))
     = Some (PrototypeAST ''foo'' [''a'', ''b''])
   \<and> fst (ParsePrototype (getNextToken (initial ''foo(a, b)''))) = None
   \<and> stderr (snd (ParsePrototype (getNextToken (initial ''foo(a, b)''))))
     = [''Error: Expected ')' in prototype'']"
  by (simp add: parse_eval)

text \<open>
  C3 as amended. After the name of the function and \<^verbatim>\<open>(\<close>, any number of identifiers that
  white space separates are the parameters. The token that follows the last of them decides:
  if it is \<^verbatim>\<open>)\<close> the text parses to the prototype with these parameters and nothing is
  printed; any other token that is not an identifier, be it a comma or another character,
  a number, \<^verbatim>\<open>def\<close>, \<^verbatim>\<open>extern\<close> or the end of the input, ends the list and the prototype is
  rejected with \<^verbatim>\<open>Expected ')' in prototype\<close>, that token being the current one afterwards.
\<close>

theorem prototype_parameters:
  assumes "CurTok s = tok_identifier" and "is_space_text ws0" and "params_ok ps"
    and "reads s (ws0 @ ''('' @ spaced ps @ T)"
    and "ps = [] \<or> \<not> starts_with isalnum T"
    and "fst (gettok (seek T s)) \<noteq> tok_identifier"
  shows "(fst (gettok (seek T s)) = of_char CHR '')'' \<longrightarrow>
        fst (ParsePrototype s) = Some (PrototypeAST (IdentifierStr s) (map snd ps))
        \<and> stderr (snd (ParsePrototype s)) = stderr s)
   \<and> (fst (gettok (seek T s)) \<noteq> of_char CHR '')'' \<longrightarrow>
        fst (ParsePrototype s) = None
        \<and> stderr (snd (ParsePrototype s)) = stderr s @ [''Error: Expected ')' in prototype'']
        \<and> CurTok (snd (ParsePrototype s)) = fst (gettok (seek T s)))"
proof -
  let ?rest = "spaced ps @ T"
  let ?s1 = "(seek ?rest s)\<lparr>CurTok := of_char CHR ''(''\<rparr>"
  have g: "getNextToken s = ?s1"
    using getNextToken_char_text [of s ws0 "CHR ''(''" ?rest] assms(2,4) by simp
  have r1: "reads ?s1 ?rest" by simp
  have t1: "fst (gettok (seek T ?s1)) = fst (gettok (seek T s))" by (rule gettok_token_text)
  then have "fst (gettok (seek T ?s1)) \<noteq> tok_identifier" using assms(6) by simp
  from ParsePrototype_args_tail [OF r1 assms(3,5) this, of "[]"]
  obtain s2 where s2: "ParsePrototype_args [] ?s1 = (map snd ps, s2)"
    "CurTok s2 = fst (gettok (seek T s))" "backend s2 = backend ?s1"
    using t1 by auto
  have e2: "stderr s2 = stderr s" using s2(3) by (simp add: backend_def)
  have c1: "CurTok (getNextToken s) = of_char CHR ''(''" using g by simp
  show ?thesis
  proof (intro conjI impI)
    assume "fst (gettok (seek T s)) = of_char CHR '')''"
    then have p: "ParsePrototype s
        = (Some (PrototypeAST (IdentifierStr s) (map snd ps)), getNextToken s2)"
      using assms(1) s2(1,2) c1 g by (simp add: ParsePrototype_def Let_def)
    show "fst (ParsePrototype s) = Some (PrototypeAST (IdentifierStr s) (map snd ps))"
      using p by simp
    show "stderr (snd (ParsePrototype s)) = stderr s"
      using p e2 backend_getNextToken [of s2] by (simp add: backend_def)
  next
    assume "fst (gettok (seek T s)) \<noteq> of_char CHR '')''"
    then have p: "ParsePrototype s = (None, Error ''Expected ')' in prototype'' s2)"
      using assms(1) s2(1,2) c1 g by (simp add: ParsePrototype_def Let_def)
    show "fst (ParsePrototype s) = None" using p by simp
    show "stderr (snd (ParsePrototype s)) = stderr s @ [''Error: Expected ')' in prototype'']"
      using p e2 by simp
    show "CurTok (snd (ParsePrototype s)) = fst (gettok (seek T s))"
      using p s2(2) by simp
  qed
qed


theorem prototype_parameters_witness:
  "fst (ParsePrototype (getNextToken (initial ''foo(a  b )'')))
     = Some (PrototypeAST ''foo'' [''a'', ''b''])
   \<and> stderr (snd (ParsePrototype (getNextToken (initial ''foo(a  b )'')))) = []
   \<and> fst (ParsePrototype (getNextToken (initial ''foo(a ,b)''))) = None
   \<and> stderr (snd (ParsePrototype (getNextToken (initial ''foo(a ,b)''))))
     = [''Error: Expected ')' in prototype'']
   \<and> fst (ParsePrototype (getNextToken (initial ''foo(a''))) = None
   \<and> stderr (snd (ParsePrototype (getNextToken (initial ''foo(a''))))
     = [''Error: Expected ')' in prototype'']
   \<and> CurTok (snd (ParsePrototype (getNextToken (initial ''foo(a'')))) = tok_eof
   \<and> fst (ParsePrototype (getNextToken (initial ''foo(a 1)''))) = None
   \<and> CurTok (snd (ParsePrototype (getNextToken (initial ''foo(a 1)'')))) = tok_number
   \<and> fst (ParsePrototype (getNextToken (initial ''foo(a def)''))) = None
   \<and> CurTok (snd (ParsePrototype (getNextToken (initial ''foo(a def)'')))) = tok_def"
proof -
  let ?s = "getNextToken (initial ''foo(a  b )'')"
  let ?t = "getNextToken (initial ''foo(a ,b)'')"
  let ?u = "getNextToken (initial ''foo(a'')"
  let ?v = "getNextToken (initial ''foo(a 1)'')"
  let ?x = "getNextToken (initial ''foo(a def)'')"
  have ws: "is_space_text []"
    by (simp add: is_space_text_def)
  have ps: "params_ok [([], ''a''), (''  '', ''b'')]" "params_ok [([], ''a'')]"
    by (simp_all add: is_space_text_def is_identifier_def keyword_def starts_with_def cclass
        tok_identifier_def tok_def_def tok_extern_def)
  have s: "CurTok ?s = tok_identifier" "IdentifierStr ?s = ''foo''" "stderr ?s = []"
    "reads ?s ([] @ ''('' @ spaced [([], ''a''), (''  '', ''b'')] @ '' )'')"
    "[([], ''a''), (''  '', ''b'')] = [] \<or> \<not> starts_with isalnum '' )''"
    by (simp_all add: parse_eval reads_def starts_with_def)
  have s': "fst (gettok (seek '' )'' ?s)) \<noteq> tok_identifier"
    "fst (gettok (seek '' )'' ?s)) = of_char CHR '')''"
    by (simp_all add: parse_eval seek_def)
  have t: "CurTok ?t = tok_identifier" "stderr ?t = []"
    "reads ?t ([] @ ''('' @ spaced [([], ''a'')] @ '' ,b)'')"
    "[([], ''a'')] = [] \<or> \<not> starts_with isalnum '' ,b)''"
    by (simp_all add: parse_eval reads_def starts_with_def)
  have t': "fst (gettok (seek '' ,b)'' ?t)) \<noteq> tok_identifier"
    "fst (gettok (seek '' ,b)'' ?t)) \<noteq> of_char CHR '')''"
    by (simp_all add: parse_eval seek_def)
  have u: "CurTok ?u = tok_identifier" "stderr ?u = []"
    "reads ?u ([] @ ''('' @ spaced [([], ''a'')] @ [])"
    "[([], ''a'')] = [] \<or> \<not> starts_with isalnum []"
    by (simp_all add: parse_eval reads_def starts_with_def)
  have u': "fst (gettok (seek [] ?u)) \<noteq> tok_identifier"
    "fst (gettok (seek [] ?u)) \<noteq> of_char CHR '')''" "fst (gettok (seek [] ?u)) = tok_eof"
    by (simp_all add: parse_eval seek_def)
  have v: "CurTok ?v = tok_identifier"
    "reads ?v ([] @ ''('' @ spaced [([], ''a'')] @ '' 1)'')"
    "[([], ''a'')] = [] \<or> \<not> starts_with isalnum '' 1)''"
    by (simp_all add: parse_eval reads_def starts_with_def)
  have v': "fst (gettok (seek '' 1)'' ?v)) \<noteq> tok_identifier"
    "fst (gettok (seek '' 1)'' ?v)) \<noteq> of_char CHR '')''" "fst (gettok (seek '' 1)'' ?v)) = tok_number"
    by (simp_all add: parse_eval seek_def)
  have x: "CurTok ?x = tok_identifier"
    "reads ?x ([] @ ''('' @ spaced [([], ''a'')] @ '' def)'')"
    "[([], ''a'')] = [] \<or> \<not> starts_with isalnum '' def)''"
    by (simp_all add: parse_eval reads_def starts_with_def)
  have x': "fst (gettok (seek '' def)'' ?x)) \<noteq> tok_identifier"
    "fst (gettok (seek '' def)'' ?x)) \<noteq> of_char CHR '')''" "fst (gettok (seek '' def)'' ?x)) = tok_def"
    by (simp_all add: parse_eval seek_def)
  note A = prototype_parameters [OF s(1) ws ps(1) s(4) s(5) s'(1), THEN conjunct1, rule_format, OF s'(2)]
  note B = prototype_parameters [OF t(1) ws ps(2) t(3) t(4) t'(1), THEN conjunct2, rule_format, OF t'(2)]
  note C = prototype_parameters [OF u(1) ws ps(2) u(3) u(4) u'(1), THEN conjunct2, rule_format, OF u'(2)]
  note D = prototype_parameters [OF v(1) ws ps(2) v(2) v(3) v'(1), THEN conjunct2, rule_format, OF v'(2)]
  note E = prototype_parameters [OF x(1) ws ps(2) x(2) x(3) x'(1), THEN conjunct2, rule_format, OF x'(2)]
  show ?thesis using A B C D E s(2,3) t(2) u(2) u'(3) v'(3) x'(3) by simp
qed

section \<open>The driver\<close>

lemma PrototypeAST_Codegen_cursor: "cursor (snd (PrototypeAST_Codegen P s)) = cursor s"
proof -
  obtain Name Args where P: "P = PrototypeAST Name Args" by (cases P)
  obtain r s' where r: "PrototypeAST_Codegen (PrototypeAST Name Args) s = (r, s')"
    by (cases "PrototypeAST_Codegen (PrototypeAST Name Args) s")
  show ?thesis
  proof (cases r)
    case None
    then show ?thesis using PrototypeAST_Codegen_None [of Name Args s s'] r P by simp
  next
    case (Some f)
    then show ?thesis using PrototypeAST_Codegen_Some(2) [of Name Args s f s'] r P by simp
  qed
qed

lemma FunctionAST_Codegen_cursor: "cursor (snd (FunctionAST_Codegen Fn s)) = cursor s"
proof -
  obtain Proto Body where Fn: "Fn = FunctionAST Proto Body" by (cases Fn)
  let ?s0 = "s\<lparr>NamedValues := Map.empty\<rparr>"
  obtain p s1 where p: "PrototypeAST_Codegen Proto ?s0 = (p, s1)"
    by (cases "PrototypeAST_Codegen Proto ?s0")
  have c1: "cursor s1 = cursor s" using PrototypeAST_Codegen_cursor [of Proto ?s0] p by simp
  show ?thesis
  proof (cases p)
    case None
    then show ?thesis using FunctionAST_Codegen_proto_failed [of Proto s s1 Body] p Fn c1 by simp
  next
    case (Some f)
    obtain r s2 where b: "Codegen Body (BasicBlock_Create ''entry'' f s1) = (r, s2)"
      by (cases "Codegen Body (BasicBlock_Create ''entry'' f s1)")
    have "cursor s2 = cursor s1"
      using Codegen_frame(1) [OF b] by (simp add: BasicBlock_Create_def)
    then show ?thesis
      using FunctionAST_Codegen_unfold [of Proto s f s1 Body r s2] p Some b Fn c1
      by (cases r) (simp_all add: eraseFromParent_def CreateRet_def)
  qed
qed

lemma MainLoop_returns_at_eof: "MainLoop n s = Some s' \<Longrightarrow> CurTok s' = tok_eof"
proof (induction n arbitrary: s)
  case 0
  then show ?case by simp
next
  case (Suc n)
  let ?s = "fprintf ''ready>'' s"
  consider (eof) "CurTok ?s = tok_eof"
    | (semi) "CurTok ?s \<noteq> tok_eof" "CurTok ?s = of_char CHR '';''"
    | (def) "CurTok ?s \<noteq> tok_eof" "CurTok ?s \<noteq> of_char CHR '';''" "CurTok ?s = tok_def"
    | (ext) "CurTok ?s \<noteq> tok_eof" "CurTok ?s \<noteq> of_char CHR '';''" "CurTok ?s \<noteq> tok_def"
        "CurTok ?s = tok_extern"
    | (top) "CurTok ?s \<noteq> tok_eof" "CurTok ?s \<noteq> of_char CHR '';''" "CurTok ?s \<noteq> tok_def"
        "CurTok ?s \<noteq> tok_extern"
    by blast
  then show ?case
  proof cases
    case eof
    then have "MainLoop (Suc n) s = Some ?s" by (simp add: Let_def)
    then show ?thesis using Suc.prems eof by simp
  next
    case semi
    then have "MainLoop (Suc n) s = MainLoop n (getNextToken ?s)" by (simp add: Let_def)
    then show ?thesis using Suc by simp
  next
    case def
    then have m: "MainLoop (Suc n) s =
        (case HandleDefinition n ?s of None \<Rightarrow> None | Some s' \<Rightarrow> MainLoop n s')"
      by (simp add: Let_def)
    then show ?thesis using Suc by (cases "HandleDefinition n ?s") simp_all
  next
    case ext
    then have "MainLoop (Suc n) s = MainLoop n (HandleExtern ?s)" by (simp add: Let_def)
    then show ?thesis using Suc by simp
  next
    case top
    then have m: "MainLoop (Suc n) s =
        (case HandleTopLevelExpression n ?s of None \<Rightarrow> None | Some s' \<Rightarrow> MainLoop n s')"
      by (simp add: Let_def)
    then show ?thesis using Suc by (cases "HandleTopLevelExpression n ?s") simp_all
  qed
qed

text \<open>The bound on the depth, given as a numeral, counts down.\<close>

lemmas fuel_numeral =
  ParsePrimary.simps(2) [where n = "pred_numeral k" for k, folded numeral_eq_Suc]
  ParseParenExpr.simps(2) [where n = "pred_numeral k" for k, folded numeral_eq_Suc]
  ParseIdentifierExpr.simps(2) [where n = "pred_numeral k" for k, folded numeral_eq_Suc]
  ParseArgs.simps(2) [where n = "pred_numeral k" for k, folded numeral_eq_Suc]
  ParseBinOpRHS.simps(2) [where n = "pred_numeral k" for k, folded numeral_eq_Suc]
  ParseExpression.simps(2) [where n = "pred_numeral k" for k, folded numeral_eq_Suc]
  MainLoop.simps(2) [where n = "pred_numeral k" for k, folded numeral_eq_Suc]

section \<open>Operator precedence\<close>

lemma chain_weaken:
  "chain lo hi lhs w e \<Longrightarrow> lo' \<le> lo \<Longrightarrow> hi \<le> hi' \<Longrightarrow> chain lo' hi' lhs w e"
proof (induction lo hi lhs w e arbitrary: hi' rule: atom_chain.inducts(2) [where ?P1.0 = "\<lambda>_ _. True"])
  case (atom_number l)
  then show ?case by simp
next
  case (atom_parens wa a w e)
  then show ?case by simp
next
  case (chain_end lo hi lhs)
  then show ?case by (simp add: atom_chain.chain_end)
next
  case (chain_step c lo hi wa a w1 r lhs w2 e)
  have "chain lo' (BinopPrecedence c) (BinaryExprAST c lhs r) w2 e"
    using chain_step.IH(2) [of "BinopPrecedence c"] chain_step.prems by simp
  then show ?case
    using chain_step.hyps chain_step.prems
      atom_chain.chain_step [of c lo' hi' wa a w1 r lhs w2 e] by simp
qed

lemma chain_snoc:
  "chain lo hi lhs w e1 \<Longrightarrow> is_binop c \<Longrightarrow> BinopPrecedence c = lo \<Longrightarrow> lo \<le> hi
   \<Longrightarrow> atom wa a \<Longrightarrow> chain (lo + 1) 40 a w1 r
   \<Longrightarrow> chain lo hi lhs (w @ c # wa @ w1) (BinaryExprAST c e1 r)"
proof (induction lo hi lhs w e1 rule: atom_chain.inducts(2) [where ?P1.0 = "\<lambda>_ _. True"])
  case (atom_number l)
  then show ?case by simp
next
  case (atom_parens wa a w e)
  then show ?case by simp
next
  case (chain_end lo hi lhs)
  have "chain lo (BinopPrecedence c) (BinaryExprAST c lhs r) [] (BinaryExprAST c lhs r)"
    by (rule atom_chain.chain_end)
  then have "chain lo hi lhs (c # wa @ w1 @ []) (BinaryExprAST c lhs r)"
    using chain_end.prems
      atom_chain.chain_step [of c lo hi wa a w1 r lhs "[]" "BinaryExprAST c lhs r"] by simp
  then show ?case by simp
next
  case (chain_step c0 lo hi wa0 a0 w10 r0 lhs w20 e)
  have "chain lo (BinopPrecedence c0) (BinaryExprAST c0 lhs r0) (w20 @ c # wa @ w1)
      (BinaryExprAST c e r)"
    using chain_step.IH(2) chain_step.prems chain_step.hyps(2) by simp
  then have "chain lo hi lhs (c0 # wa0 @ w10 @ (w20 @ c # wa @ w1)) (BinaryExprAST c e r)"
    using chain_step.hyps
      atom_chain.chain_step [of c0 lo hi wa0 a0 w10 r0 lhs "w20 @ c # wa @ w1" "BinaryExprAST c e r"]
    by simp
  then show ?case by simp
qed

lemma operandI: "atom wa a \<Longrightarrow> chain lo 40 a w' e \<Longrightarrow> operand lo (wa @ w') e"
  unfolding operand_def by blast

lemma operand_weaken:
  assumes "operand lo w e" "lo' \<le> lo"
  shows "operand lo' w e"
proof -
  from assms(1) obtain wa a w' where 1: "w = wa @ w'" "atom wa a" "chain lo 40 a w' e"
    unfolding operand_def by blast
  have "chain lo' 40 a w' e" using chain_weaken [OF 1(3) assms(2)] by simp
  then show ?thesis using 1 operandI by simp
qed

lemma operand_atom: "atom w e \<Longrightarrow> operand lo w e"
  using operandI [of w e lo "[]" e] chain_end [of lo 40 e] by simp

lemma operand_binop:
  assumes "operand lo w1 e1" "operand (lo + 1) w2 e2" "is_binop c" "BinopPrecedence c = lo"
    "lo \<le> 40"
  shows "operand lo (w1 @ c # w2) (BinaryExprAST c e1 e2)"
proof -
  from assms(1) obtain wa a w' where 1: "w1 = wa @ w'" "atom wa a" "chain lo 40 a w' e1"
    unfolding operand_def by blast
  from assms(2) obtain wb b w'' where 2: "w2 = wb @ w''" "atom wb b" "chain (lo + 1) 40 b w'' e2"
    unfolding operand_def by blast
  have "chain lo 40 a (w' @ c # wb @ w'') (BinaryExprAST c e1 e2)"
    using chain_snoc [OF 1(3) assms(3,4,5) 2(2,3)] .
  then have "operand lo (wa @ (w' @ c # wb @ w'')) (BinaryExprAST c e1 e2)"
    using 1(2) by (rule operandI [rotated])
  then show ?thesis using 1 2 by simp
qed

lemma conventional_operand:
  "primary w e \<Longrightarrow> atom w e"
  "product w e \<Longrightarrow> operand 40 w e"
  "summation w e \<Longrightarrow> operand 20 w e"
  "comparison w e \<Longrightarrow> operand 10 w e"
proof (induction rule: primary_product_summation_comparison.inducts)
  case (number l)
  then show ?case by (rule atom_number)
next
  case (parens w e)
  then obtain wa a w' where "w = wa @ w'" "atom wa a" "chain 10 40 a w' e"
    unfolding operand_def by blast
  then show ?case using atom_parens [of wa a w' e] chain_weaken [of 10 40 a w' e 0 40] by simp
next
  case (product_primary w e)
  then show ?case by (simp add: operand_atom)
next
  case (times w1 e1 w2 e2)
  have "operand 40 (w1 @ CHR ''*'' # w2) (BinaryExprAST CHR ''*'' e1 e2)"
    using times.IH operand_atom [of w2 e2 41]
    by (intro operand_binop) (simp_all add: is_binop_def BinopPrecedence_def)
  then show ?case by simp
next
  case (summation_product w e)
  then show ?case using operand_weaken [of 40 w e 20] by simp
next
  case (plus w1 e1 w2 e2)
  have "operand 20 (w1 @ CHR ''+'' # w2) (BinaryExprAST CHR ''+'' e1 e2)"
    using plus.IH operand_weaken [of 40 w2 e2 21]
    by (intro operand_binop) (simp_all add: is_binop_def BinopPrecedence_def)
  then show ?case by simp
next
  case (minus w1 e1 w2 e2)
  have "operand 20 (w1 @ CHR ''-'' # w2) (BinaryExprAST CHR ''-'' e1 e2)"
    using minus.IH operand_weaken [of 40 w2 e2 21]
    by (intro operand_binop) (simp_all add: is_binop_def BinopPrecedence_def)
  then show ?case by simp
next
  case (comparison_summation w e)
  then show ?case using operand_weaken [of 20 w e 10] by simp
next
  case (less w1 e1 w2 e2)
  have "operand 10 (w1 @ CHR ''<'' # w2) (BinaryExprAST CHR ''<'' e1 e2)"
    using less.IH operand_weaken [of 20 w2 e2 11]
    by (intro operand_binop) (simp_all add: is_binop_def BinopPrecedence_def)
  then show ?case by simp
qed

lemma cur_atI: "reads s w \<Longrightarrow> cur_at (getNextToken s) w"
  unfolding cur_at_def by blast

lemma is_space_text_Nil [simp]: "is_space_text []"
  by (simp add: is_space_text_def)

lemma cur_at_char:
  assumes "cur_at s (c # w)" "unrecognized (of_char c)"
  shows "CurTok s = of_char c" "reads s w"
proof -
  from assms(1) obtain s0 where s0: "reads s0 (c # w)" "s = getNextToken s0"
    unfolding cur_at_def by blast
  have "getNextToken s0 = (seek w s0)\<lparr>CurTok := of_char c\<rparr>"
    using getNextToken_char_text [of s0 "[]" c w] s0(1) assms(2) by simp
  then show "CurTok s = of_char c" "reads s w" using s0(2) by simp_all
qed

lemma cur_at_numeral:
  assumes "cur_at s (l @ w)" "is_numeral l" "\<not> starts_with num_char w"
  shows "CurTok s = tok_number" "NumVal s = l" "reads s w"
proof -
  from assms(1) obtain s0 where s0: "reads s0 (l @ w)" "s = getNextToken s0"
    unfolding cur_at_def by blast
  have "getNextToken s0 = (seek w s0)\<lparr>NumVal := l, CurTok := tok_number\<rparr>"
    using getNextToken_numeral_text [OF s0(1) assms(2,3)] .
  then show "CurTok s = tok_number" "NumVal s = l" "reads s w" using s0(2) by simp_all
qed

lemma cur_at_Nil:
  assumes "cur_at s []"
  shows "CurTok s = tok_eof"
proof -
  from assms obtain s0 where s0: "reads s0 []" "s = getNextToken s0"
    unfolding cur_at_def by blast
  then show ?thesis using getNextToken_eof_text [of s0] by simp
qed

lemma binop_facts:
  assumes "is_binop c"
  shows "unrecognized (of_char c)" "isascii (of_char c)" "0 < BinopPrecedence c"
    "BinopPrecedence c \<le> 40" "\<not> num_char (of_char c)"
  using assms by (auto simp: is_binop_def unrecognized_def BinopPrecedence_def num_char_def cclass)

lemma GetTokPrecedence_binop:
  assumes "CurTok s = of_char c" "is_binop c"
  shows "GetTokPrecedence s = BinopPrecedence c"
  using assms binop_facts(2,3) [OF assms(2)] by (simp add: GetTokPrecedence_def Let_def)

lemma GetTokPrecedence_close:
  assumes "CurTok s = of_char CHR '')''"
  shows "GetTokPrecedence s = - 1"
  using assms by (simp add: GetTokPrecedence_def BinopPrecedence_def isascii_def char_of_eq_iff)

lemma GetTokPrecedence_eof:
  assumes "CurTok s = tok_eof"
  shows "GetTokPrecedence s = - 1"
  using assms by (simp add: GetTokPrecedence_def tok_eof_def isascii_def)

lemma follows_Nil: "0 \<le> lo \<Longrightarrow> follows lo []"
  using cur_at_Nil GetTokPrecedence_eof by (auto simp: follows_def)

lemma follows_close: "0 \<le> lo \<Longrightarrow> follows lo (CHR '')'' # T)"
proof -
  assume lo: "0 \<le> lo"
  have "GetTokPrecedence s < lo" if "cur_at s (CHR '')'' # T)" for s
    using cur_at_char(1) [OF that] GetTokPrecedence_close [of s] lo by simp
  moreover have "\<not> num_char (of_char CHR '')'')" by (simp add: num_char_def cclass)
  ultimately show ?thesis by (simp add: follows_def)
qed

lemma chain_head:
  assumes "chain lo hi lhs w e"
  shows "w = [] \<or> (\<exists>c w'. w = c # w' \<and> is_binop c \<and> BinopPrecedence c \<le> hi)"
  using assms by (cases rule: chain.cases) auto

lemma follows_chain:
  assumes "chain lo hi lhs w e" "follows k T" "k \<le> hi + 1"
  shows "follows (hi + 1) (w @ T)"
proof -
  from chain_head [OF assms(1)] consider "w = []"
    | c w' where "w = c # w'" "is_binop c" "BinopPrecedence c \<le> hi"
    by blast
  then show ?thesis
  proof cases
    case 1
    then show ?thesis using assms(2,3) by (fastforce simp: follows_def)
  next
    case 2
    have "GetTokPrecedence s < hi + 1" if "cur_at s (w @ T)" for s
    proof -
      have "CurTok s = of_char c"
        using that 2(1) cur_at_char(1) [of s c "w' @ T"] binop_facts(1) [OF 2(2)] by simp
      then show ?thesis using GetTokPrecedence_binop [OF _ 2(2)] 2(3) by simp
    qed
    then show ?thesis using 2 binop_facts(5) [OF 2(2)] by (simp add: follows_def)
  qed
qed

lemma yieldsI:
  assumes "cur_at s' T" "backend s' = backend s" "\<And>n. N \<le> n \<Longrightarrow> f n s = Some (Some e, s')"
  shows "yields f s e T"
  unfolding yields_def using assms by blast

lemma parse_atom_chain:
  "atom wa a \<Longrightarrow> cur_at s (wa @ T) \<Longrightarrow> \<not> starts_with num_char T \<Longrightarrow> yields ParsePrimary s a T"
  "chain lo hi lhs w e \<Longrightarrow> cur_at s (w @ T) \<Longrightarrow> follows lo T
     \<Longrightarrow> yields (\<lambda>n. ParseBinOpRHS n lo lhs) s e T"
proof (induction wa a and lo hi lhs w e arbitrary: s T and s T rule: atom_chain.inducts)
  case (atom_number l)
  have c: "CurTok s = tok_number" "NumVal s = l" "reads s T"
    using cur_at_numeral [OF atom_number.prems(1) atom_number.hyps atom_number.prems(2)] .
  show ?case
  proof (rule yieldsI [where N = 1 and s' = "getNextToken s"])
    show "cur_at (getNextToken s) T" using c(3) by (rule cur_atI)
    show "backend (getNextToken s) = backend s" by simp
    fix n :: nat assume n: "1 \<le> n"
    show "ParsePrimary n s = Some (Some (NumberExprAST l), getNextToken s)"
    proof -
      from n obtain m where "n = Suc m" by (cases n) auto
      then show ?thesis
        using c by (simp add: ParseNumberExpr_def tok_number_def tok_identifier_def)
    qed
  qed
next
  case (atom_parens wa a w e)
  have open_tok: "unrecognized (of_char CHR ''('')" by simp
  have c: "CurTok s = of_char CHR ''(''" "reads s (wa @ w @ CHR '')'' # T)"
    using cur_at_char [of s "CHR ''(''" "wa @ w @ CHR '')'' # T"] atom_parens.prems(1) by simp_all
  let ?s1 = "getNextToken s"
  have a1: "cur_at ?s1 (wa @ (w @ CHR '')'' # T))" using c(2) by (rule cur_atI)
  have f: "follows 0 (CHR '')'' # T)" by (rule follows_close) simp
  have nn: "\<not> starts_with num_char (w @ CHR '')'' # T)"
    using follows_chain [OF atom_parens.hyps(2) f] by (simp add: follows_def)
  from atom_parens.IH(1) [OF a1 nn]
  obtain Na s2 where s2: "cur_at s2 (w @ CHR '')'' # T)" "backend s2 = backend ?s1"
    "\<forall>n\<ge>Na. ParsePrimary n ?s1 = Some (Some a, s2)"
    unfolding yields_def by blast
  from atom_parens.IH(2) [OF s2(1) f]
  obtain Nc s3 where s3: "cur_at s3 (CHR '')'' # T)" "backend s3 = backend s2"
    "\<forall>n\<ge>Nc. ParseBinOpRHS n 0 a s2 = Some (Some e, s3)"
    unfolding yields_def by blast
  have c3: "CurTok s3 = of_char CHR '')''" "reads s3 T"
    using cur_at_char [OF s3(1)] by simp_all
  show ?case
  proof (rule yieldsI [where N = "Suc (Suc (Suc (max Na Nc)))" and s' = "getNextToken s3"])
    show "cur_at (getNextToken s3) T" using c3(2) by (rule cur_atI)
    show "backend (getNextToken s3) = backend s" using s3(2) s2(2) by simp
    fix n assume n: "Suc (Suc (Suc (max Na Nc))) \<le> n"
    show "ParsePrimary n s = Some (Some e, getNextToken s3)"
    proof -
      from n obtain m where m: "n = Suc (Suc (Suc m))" "Na \<le> m" "Nc \<le> m"
        by (metis Suc_le_D Suc_le_mono max.bounded_iff)
      have "ParseExpression (Suc m) ?s1 = Some (Some e, s3)"
        using s2(3) [rule_format, OF m(2)] s3(3) [rule_format, OF m(3)] by simp
      then have "ParseParenExpr (Suc (Suc m)) s = Some (Some e, getNextToken s3)"
        using c3(1) by simp
      then show ?thesis
        using c(1) m(1) by (simp add: tok_identifier_def tok_number_def)
    qed
  qed
next
  case (chain_end lo hi lhs)
  have p: "GetTokPrecedence s < lo"
    using chain_end.prems by (simp add: follows_def)
  show ?case
  proof (rule yieldsI [where N = 1 and s' = s])
    show "cur_at s T" using chain_end.prems(1) by simp
    show "backend s = backend s" by simp
    fix n :: nat assume n: "1 \<le> n"
    show "ParseBinOpRHS n lo lhs s = Some (Some lhs, s)"
    proof -
      from n obtain m where "n = Suc m" by (cases n) auto
      then show ?thesis using p by (simp add: Let_def)
    qed
  qed
next
  case (chain_step c lo hi wa a w1 r lhs w2 e)
  let ?p = "BinopPrecedence c"
  note b = binop_facts [OF chain_step.hyps(1)]
  have c: "CurTok s = of_char c" "reads s (wa @ w1 @ w2 @ T)"
    using cur_at_char [of s c "wa @ w1 @ w2 @ T"] chain_step.prems(1) b(1) by simp_all
  have tp: "GetTokPrecedence s = ?p"
    using GetTokPrecedence_binop [OF c(1) chain_step.hyps(1)] .
  let ?s1 = "getNextToken s"
  have a1: "cur_at ?s1 (wa @ (w1 @ w2 @ T))" using c(2) by (rule cur_atI)
  have f2: "follows (?p + 1) (w2 @ T)"
    using follows_chain [OF chain_step.hyps(6) chain_step.prems(2)] chain_step.hyps(2) by simp
  have f1: "follows (40 + 1) (w1 @ (w2 @ T))"
    using follows_chain [OF chain_step.hyps(5) f2] b(4) by simp
  then have nn: "\<not> starts_with num_char (w1 @ (w2 @ T))" by (simp add: follows_def)
  from chain_step.IH(1) [OF a1 nn]
  obtain Na s2 where s2: "cur_at s2 (w1 @ (w2 @ T))" "backend s2 = backend ?s1"
    "\<forall>n\<ge>Na. ParsePrimary n ?s1 = Some (Some a, s2)"
    unfolding yields_def by blast
  from chain_step.IH(2) [OF s2(1) f2]
  obtain N1 s3 where s3: "cur_at s3 (w2 @ T)" "backend s3 = backend s2"
    "\<forall>n\<ge>N1. ParseBinOpRHS n (?p + 1) a s2 = Some (Some r, s3)"
    unfolding yields_def by blast
  from chain_step.IH(3) [OF s3(1) chain_step.prems(2)]
  obtain N2 s4 where s4: "cur_at s4 T" "backend s4 = backend s3"
    "\<forall>n\<ge>N2. ParseBinOpRHS n lo (BinaryExprAST c lhs r) s3 = Some (Some e, s4)"
    unfolding yields_def by blast
  show ?case
  proof (rule yieldsI [where N = "Suc (Suc (max Na (max N1 N2)))" and s' = s4])
    show "cur_at s4 T" by (rule s4(1))
    show "backend s4 = backend s" using s4(2) s3(2) s2(2) by simp
    fix n assume n: "Suc (Suc (max Na (max N1 N2))) \<le> n"
    show "ParseBinOpRHS n lo lhs s = Some (Some e, s4)"
    proof -
    from n obtain m where m: "n = Suc (Suc m)" "Na \<le> Suc m" "N1 \<le> Suc m" "N2 \<le> Suc m"
      by (metis Suc_le_D Suc_le_mono le_SucI max.bounded_iff)
    have rhs: "ParseBinOpRHS (Suc m) (?p + 1) a s2 = Some (Some r, s3)"
      by (rule s3(3) [rule_format, OF m(3)])
    have step: "(if ?p < GetTokPrecedence s2
        then (case ParseBinOpRHS (Suc m) (?p + 1) a s2 of
                None \<Rightarrow> None
              | Some (None, s3) \<Rightarrow> Some (None, s3)
              | Some (Some RHS', s3) \<Rightarrow>
                  ParseBinOpRHS (Suc m) lo (BinaryExprAST c lhs RHS') s3)
        else ParseBinOpRHS (Suc m) lo (BinaryExprAST c lhs a) s2)
        = Some (Some e, s4)"
    proof (cases "?p < GetTokPrecedence s2")
      case True
      then show ?thesis using rhs s4(3) [rule_format, OF m(4)] by simp
    next
      case False
      then have "ParseBinOpRHS (Suc m) (?p + 1) a s2 = Some (Some a, s2)"
        by (simp add: Let_def)
      then have "r = a" "s3 = s2" using rhs by simp_all
      then show ?thesis using False s4(3) [rule_format, OF m(4)] by simp
    qed
    have np: "(?p < lo) = False" using chain_step.hyps(2) by simp
    have pp: "ParsePrimary (Suc m) ?s1 = Some (Some a, s2)"
      by (rule s2(3) [rule_format, OF m(2)])
    have cc: "char_of (CurTok s) = c" using c(1) by simp
    have "ParseBinOpRHS (Suc (Suc m)) lo lhs s =
       (if ?p < GetTokPrecedence s2
        then (case ParseBinOpRHS (Suc m) (?p + 1) a s2 of
                None \<Rightarrow> None
              | Some (None, s3) \<Rightarrow> Some (None, s3)
              | Some (Some RHS', s3) \<Rightarrow>
                  ParseBinOpRHS (Suc m) lo (BinaryExprAST c lhs RHS') s3)
        else ParseBinOpRHS (Suc m) lo (BinaryExprAST c lhs a) s2)"
      by (simp only: ParseBinOpRHS.simps(2) [of "Suc m" lo lhs s] Let_def tp pp cc np if_False
          option.case prod.case)
    then show ?thesis using step m(1) by (simp only:)
    qed
  qed
qed

lemma atom_head:
  assumes "atom wa a"
  shows "\<exists>c w. wa = c # w \<and> \<not> isspace (of_char c)"
  using assms
proof (cases rule: atom.cases)
  case atom_number
  then obtain c cs where "wa = c # cs" "num_char (of_char c)"
    by (cases wa) (auto simp: is_numeral_def num_char_def)
  then show ?thesis using num_char_not_others by auto
next
  case (atom_parens wa' a' w')
  then show ?thesis by (simp add: cclass)
qed

text \<open>
  C1. For every text \<open>w\<close> of the conventional grammar, with the tree \<open>e\<close> that the grammar
  gives it, \<open>ParseExpression\<close> returns \<open>e\<close> from the state in which \<^verbatim>\<open>main\<close> has read the
  first token of \<open>w\<close>, for every bound on its depth from some bound on: it prints no
  diagnostic and stops at the end of the input. So the parser groups by the precedences
  \<^verbatim>\<open><\<close> 10, \<^verbatim>\<open>+\<close> and \<^verbatim>\<open>-\<close> 20, \<^verbatim>\<open>*\<close> 40, and to the left among operators of one precedence.
\<close>

theorem precedence_climbing:
  assumes "comparison w e"
  shows "\<exists>N s'. CurTok s' = tok_eof \<and> stderr s' = []
     \<and> (\<forall>n\<ge>N. ParseExpression n (getNextToken (initial w)) = Some (Some e, s'))"
proof -
  have "operand 0 w e"
    using conventional_operand(4) [OF assms] operand_weaken [of 10 w e 0] by simp
  then obtain wa a w' where w: "w = wa @ w'" "atom wa a" "chain 0 40 a w' e"
    unfolding operand_def by blast
  let ?s0 = "getNextToken (initial w)"
  from atom_head [OF w(2)] obtain c v where cv: "wa = c # v" "\<not> isspace (of_char c)" by blast
  have "reads (initial w) ('' '' @ w)" by (simp add: reads_def initial_def)
  moreover have "is_space_text '' ''" by (simp add: is_space_text_def cclass)
  moreover have "\<not> starts_with isspace w" using w(1) cv by simp
  ultimately have "gettok (initial w) = gettok (seek w (initial w))"
    by (rule gettok_space_text)
  then have "?s0 = getNextToken (seek w (initial w))" by (simp add: getNextToken_def)
  then have a0: "cur_at ?s0 (wa @ (w' @ []))"
    using cur_atI [of "seek w (initial w)" w] w(1) by simp
  have f0: "follows 0 []" by (rule follows_Nil) simp
  have "follows (40 + 1) (w' @ [])" using follows_chain [OF w(3) f0] by simp
  then have nn: "\<not> starts_with num_char (w' @ [])" by (simp add: follows_def)
  from parse_atom_chain(1) [OF w(2) a0 nn]
  obtain Na s2 where s2: "cur_at s2 (w' @ [])" "backend s2 = backend ?s0"
    "\<forall>n\<ge>Na. ParsePrimary n ?s0 = Some (Some a, s2)"
    unfolding yields_def by blast
  from parse_atom_chain(2) [OF w(3) s2(1) f0]
  obtain Nc s3 where s3: "cur_at s3 []" "backend s3 = backend s2"
    "\<forall>n\<ge>Nc. ParseBinOpRHS n 0 a s2 = Some (Some e, s3)"
    unfolding yields_def by blast
  have "backend s3 = backend (initial w)" using s3(2) s2(2) by simp
  then have e: "stderr s3 = []" by (simp add: backend_def initial_def)
  have t: "CurTok s3 = tok_eof" using s3(1) by (rule cur_at_Nil)
  have "ParseExpression n ?s0 = Some (Some e, s3)" if "Suc (max Na Nc) \<le> n" for n
  proof -
    from that obtain m where m: "n = Suc m" "Na \<le> m" "Nc \<le> m"
      by (metis Suc_le_D Suc_le_mono max.bounded_iff)
    show ?thesis
      using s2(3) [rule_format, OF m(2)] s3(3) [rule_format, OF m(3)] m(1) by simp
  qed
  then show ?thesis using e t by blast
qed

theorem precedence_climbing_witness:
  "(\<exists>N s'. CurTok s' = tok_eof \<and> stderr s' = []
      \<and> (\<forall>n\<ge>N. ParseExpression n (getNextToken (initial ''1+2*3''))
            = Some (Some (BinaryExprAST CHR ''+'' (NumberExprAST ''1'')
                (BinaryExprAST CHR ''*'' (NumberExprAST ''2'') (NumberExprAST ''3''))), s')))
   \<and> (\<exists>N s'. CurTok s' = tok_eof \<and> stderr s' = []
      \<and> (\<forall>n\<ge>N. ParseExpression n (getNextToken (initial ''1+(2*3)''))
            = Some (Some (BinaryExprAST CHR ''+'' (NumberExprAST ''1'')
                (BinaryExprAST CHR ''*'' (NumberExprAST ''2'') (NumberExprAST ''3''))), s')))
   \<and> (\<exists>N s'. CurTok s' = tok_eof \<and> stderr s' = []
      \<and> (\<forall>n\<ge>N. ParseExpression n (getNextToken (initial ''1-2-3''))
            = Some (Some (BinaryExprAST CHR ''-''
                (BinaryExprAST CHR ''-'' (NumberExprAST ''1'') (NumberExprAST ''2''))
                (NumberExprAST ''3'')), s')))
   \<and> map_option fst (ParseExpression 7 (getNextToken (initial ''1-2-3'')))
      = Some (Some (BinaryExprAST CHR ''-''
                (BinaryExprAST CHR ''-'' (NumberExprAST ''1'') (NumberExprAST ''2''))
                (NumberExprAST ''3'')))"
proof -
  have n: "is_numeral ''1''" "is_numeral ''2''" "is_numeral ''3''"
    by (simp_all add: is_numeral_def cclass)
  note p1 = number [OF n(1)] and p2 = number [OF n(2)] and p3 = number [OF n(3)]
  have m23: "product ''2*3'' (BinaryExprAST CHR ''*'' (NumberExprAST ''2'') (NumberExprAST ''3''))"
    using times [OF product_primary [OF p2] p3] by simp
  have a: "comparison ''1+2*3'' (BinaryExprAST CHR ''+'' (NumberExprAST ''1'')
      (BinaryExprAST CHR ''*'' (NumberExprAST ''2'') (NumberExprAST ''3'')))"
    using comparison_summation [OF plus [OF summation_product [OF product_primary [OF p1]] m23]]
    by simp
  have "primary ''(2*3)'' (BinaryExprAST CHR ''*'' (NumberExprAST ''2'') (NumberExprAST ''3''))"
    using parens [OF comparison_summation [OF summation_product [OF m23]]] by simp
  then have b: "comparison ''1+(2*3)'' (BinaryExprAST CHR ''+'' (NumberExprAST ''1'')
      (BinaryExprAST CHR ''*'' (NumberExprAST ''2'') (NumberExprAST ''3'')))"
    using comparison_summation [OF plus [OF summation_product [OF product_primary [OF p1]]
      product_primary]] by simp
  have s12: "summation ''1-2'' (BinaryExprAST CHR ''-'' (NumberExprAST ''1'') (NumberExprAST ''2''))"
    using minus [OF summation_product [OF product_primary [OF p1]] product_primary [OF p2]]
    by simp
  have c: "comparison ''1-2-3'' (BinaryExprAST CHR ''-''
      (BinaryExprAST CHR ''-'' (NumberExprAST ''1'') (NumberExprAST ''2'')) (NumberExprAST ''3''))"
    using comparison_summation [OF minus [OF s12 product_primary [OF p3]]] by simp
  have d: "map_option fst (ParseExpression 7 (getNextToken (initial ''1-2-3'')))
      = Some (Some (BinaryExprAST CHR ''-''
                (BinaryExprAST CHR ''-'' (NumberExprAST ''1'') (NumberExprAST ''2''))
                (NumberExprAST ''3'')))"
    by (simp add: parse_eval fuel_numeral)
  show ?thesis
    using precedence_climbing [OF a] precedence_climbing [OF b] precedence_climbing [OF c] d
    by (intro conjI)
qed

section \<open>Recovery of the driver loop\<close>

text \<open>The lexer does not read what was printed.\<close>

lemma seek_stderr: "seek w (s\<lparr>stderr := e\<rparr>) = (seek w s)\<lparr>stderr := e\<rparr>"
  by (simp add: seek_def)

lemma gettok_stderr_text:
  "gettok (seek w (s\<lparr>stderr := e\<rparr>))
     = (fst (gettok (seek w s)), (snd (gettok (seek w s)))\<lparr>stderr := e\<rparr>)"
proof -
  let ?t = "s\<lparr>stderr := e\<rparr>"
  have e: "gettok (seek w t) = gettok (seek (strip w) t)" for t by (rule gettok_strip)
  consider (eof) "strip w = []"
    | (chr) c w' where "strip w = c # w'" "unrecognized (of_char c)"
    | (ident) n w' where "strip w = n @ w'" "is_identifier n" "\<not> starts_with isalnum w'"
    | (num) l w' where "strip w = l @ w'" "is_numeral l" "\<not> starts_with num_char w'"
    using strip_cases [of w] by blast
  then show ?thesis
  proof cases
    case eof
    have "gettok (seek w t) = (tok_eof, seek [] t)" for t
      using gettok_eof_text [of "seek [] t"] eof by (simp add: e)
    from this [of s] this [of ?t] show ?thesis by (simp add: seek_stderr)
  next
    case chr
    have "gettok (seek w t) = (of_char c, seek w' t)" for t
      using gettok_char_text [of "seek (c # w') t" c w'] chr by (simp add: e)
    from this [of s] this [of ?t] show ?thesis by (simp add: seek_stderr)
  next
    case ident
    have "gettok (seek w t) = (keyword n, (seek w' t)\<lparr>IdentifierStr := n\<rparr>)" for t
      using gettok_identifier_text [of "seek (n @ w') t" n w'] ident by (simp add: e)
    from this [of s] this [of ?t] show ?thesis by (simp add: seek_stderr)
  next
    case num
    have "gettok (seek w t) = (tok_number, (seek w' t)\<lparr>NumVal := l\<rparr>)" for t
      using gettok_numeral_text [of "seek (l @ w') t" l w'] num by (simp add: e)
    from this [of s] this [of ?t] show ?thesis by (simp add: seek_stderr)
  qed
qed

lemma cur_at_stderr: "cur_at s w \<Longrightarrow> cur_at (s\<lparr>stderr := stderr s @ m\<rparr>) w"
proof -
  assume "cur_at s w"
  then obtain s0 where s0: "reads s0 w" "s = getNextToken s0" unfolding cur_at_def by blast
  let ?e = "stderr s0 @ m"
  have k: "seek w s0 = s0" using s0(1) by (rule seek_same)
  have b: "stderr (snd (gettok s0)) = stderr s0"
    using backend_gettok [of s0] by (simp add: backend_def)
  have "gettok (s0\<lparr>stderr := ?e\<rparr>) = (fst (gettok s0), (snd (gettok s0))\<lparr>stderr := ?e\<rparr>)"
    using gettok_stderr_text [where w = w and s = s0 and e = ?e] k by (simp add: seek_stderr)
  then have "getNextToken (s0\<lparr>stderr := ?e\<rparr>) = s\<lparr>stderr := stderr s @ m\<rparr>"
    using s0(2) b by (simp add: getNextToken_def split: prod.splits)
  moreover have "reads (s0\<lparr>stderr := ?e\<rparr>) w" using s0(1) by simp
  ultimately show ?thesis unfolding cur_at_def by metis
qed

lemma cur_at_fprintf: "cur_at s w \<Longrightarrow> cur_at (fprintf m s) w"
  using cur_at_stderr [of s w "[m]"] by (simp add: fprintf_def)

lemma conventional_Codegen:
  "primary w e \<Longrightarrow> \<exists>v. \<forall>s. Codegen e s = (Some v, s)"
  "product w e \<Longrightarrow> \<exists>v. \<forall>s. Codegen e s = (Some v, s)"
  "summation w e \<Longrightarrow> \<exists>v. \<forall>s. Codegen e s = (Some v, s)"
  "comparison w e \<Longrightarrow> \<exists>v. \<forall>s. Codegen e s = (Some v, s)"
proof (induction rule: primary_product_summation_comparison.inducts)
  case (number l)
  then show ?case by simp
next
  case (parens w e)
  then show ?case by simp
next
  case (product_primary w e)
  then show ?case by simp
next
  case (times w1 e1 w2 e2)
  then obtain v1 v2 where "\<forall>s. Codegen e1 s = (Some v1, s)" "\<forall>s. Codegen e2 s = (Some v2, s)"
    by blast
  then have "\<forall>s. Codegen (BinaryExprAST CHR ''*'' e1 e2) s = (Some (FMul v1 v2), s)" by simp
  then show ?case by blast
next
  case (summation_product w e)
  then show ?case by simp
next
  case (plus w1 e1 w2 e2)
  then obtain v1 v2 where "\<forall>s. Codegen e1 s = (Some v1, s)" "\<forall>s. Codegen e2 s = (Some v2, s)"
    by blast
  then have "\<forall>s. Codegen (BinaryExprAST CHR ''+'' e1 e2) s = (Some (FAdd v1 v2), s)" by simp
  then show ?case by blast
next
  case (minus w1 e1 w2 e2)
  then obtain v1 v2 where "\<forall>s. Codegen e1 s = (Some v1, s)" "\<forall>s. Codegen e2 s = (Some v2, s)"
    by blast
  then have "\<forall>s. Codegen (BinaryExprAST CHR ''-'' e1 e2) s = (Some (FSub v1 v2), s)" by simp
  then show ?case by blast
next
  case (comparison_summation w e)
  then show ?case by simp
next
  case (less w1 e1 w2 e2)
  then obtain v1 v2 where "\<forall>s. Codegen e1 s = (Some v1, s)" "\<forall>s. Codegen e2 s = (Some v2, s)"
    by blast
  then have "\<forall>s. Codegen (BinaryExprAST CHR ''<'' e1 e2) s = (Some (UIToFP (FCmpULT v1 v2)), s)"
    by simp
  then show ?case by blast
qed

lemma atom_first_token:
  assumes "atom wa a" "cur_at s (wa @ T)" "\<not> starts_with num_char T"
  shows "CurTok s = tok_number \<or> CurTok s = of_char CHR ''(''"
  using assms(1)
proof (cases rule: atom.cases)
  case atom_number
  then show ?thesis using cur_at_numeral(1) [of s wa T] assms(2,3) by simp
next
  case (atom_parens wa' a' w')
  then have "cur_at s (CHR ''('' # (wa' @ w' @ '')'' @ T))" using assms(2) by simp
  then show ?thesis using cur_at_char(1) [of s "CHR ''(''"] by simp
qed

text \<open>A top-level expression of the conventional grammar, up to the end of the input.\<close>

lemma ParseExpression_text:
  assumes "comparison w e" "cur_at s w"
  shows "\<exists>N s'. cur_at s' [] \<and> backend s' = backend s
     \<and> (\<forall>n\<ge>N. ParseExpression n s = Some (Some e, s'))
     \<and> (CurTok s = tok_number \<or> CurTok s = of_char CHR ''('')"
proof -
  have "operand 0 w e"
    using conventional_operand(4) [OF assms(1)] operand_weaken [of 10 w e 0] by simp
  then obtain wa a w' where w: "w = wa @ w'" "atom wa a" "chain 0 40 a w' e"
    unfolding operand_def by blast
  have a0: "cur_at s (wa @ (w' @ []))" using assms(2) w(1) by simp
  have f0: "follows 0 []" by (rule follows_Nil) simp
  have "follows (40 + 1) (w' @ [])" using follows_chain [OF w(3) f0] by simp
  then have nn: "\<not> starts_with num_char (w' @ [])" by (simp add: follows_def)
  from parse_atom_chain(1) [OF w(2) a0 nn]
  obtain Na s2 where s2: "cur_at s2 (w' @ [])" "backend s2 = backend s"
    "\<forall>n\<ge>Na. ParsePrimary n s = Some (Some a, s2)"
    unfolding yields_def by blast
  from parse_atom_chain(2) [OF w(3) s2(1) f0]
  obtain Nc s3 where s3: "cur_at s3 []" "backend s3 = backend s2"
    "\<forall>n\<ge>Nc. ParseBinOpRHS n 0 a s2 = Some (Some e, s3)"
    unfolding yields_def by blast
  have b: "backend s3 = backend s" using s3(2) s2(2) by simp
  have "ParseExpression n s = Some (Some e, s3)" if "Suc (max Na Nc) \<le> n" for n
  proof -
    from that obtain m where m: "n = Suc m" "Na \<le> m" "Nc \<le> m"
      by (metis Suc_le_D Suc_le_mono max.bounded_iff)
    show ?thesis
      using s2(3) [rule_format, OF m(2)] s3(3) [rule_format, OF m(3)] m(1) by simp
  qed
  moreover have "CurTok s = tok_number \<or> CurTok s = of_char CHR ''(''"
    using atom_first_token [OF w(2) a0 nn] .
  ultimately show ?thesis using s3(1) b by blast
qed


lemma malformed_definition:
  "ParseDefinition n (fprintf ''ready>'' (getNextToken (fprintf ''ready>''
       (initial (''def foo(a;'' @ c # cs)))))
     = Some (None, \<lparr>stdin = cs,
          stderr = [''ready>'', ''ready>'', ''Error: Expected ')' in prototype''],
          LastChar = of_char c, IdentifierStr = ''a'', NumVal = [], CurTok = of_char CHR '';'',
          NamedValues = Map.empty, TheModule = [], next_id = 0\<rparr>)"
  by (simp add: parse_eval)


lemma MainLoop_def_failed:
  assumes "CurTok s = tok_def" "ParseDefinition n (fprintf ''ready>'' s) = Some (None, s1)"
  shows "MainLoop (Suc n) s = MainLoop n (getNextToken s1)"
  using assms
  by (simp add: Let_def HandleDefinition_def tok_def_def tok_eof_def eq_char_of_iff char_of_eq_iff)

lemma top_token:
  assumes "CurTok s = tok_number \<or> CurTok s = of_char CHR ''(''"
  shows "CurTok s \<noteq> tok_eof \<and> CurTok s \<noteq> of_char CHR '';'' \<and> CurTok s \<noteq> tok_def
     \<and> CurTok s \<noteq> tok_extern"
  using assms by (auto simp: tok_number_def tok_eof_def tok_def_def tok_extern_def)

lemma MainLoop_top:
  assumes "CurTok s \<noteq> tok_eof \<and> CurTok s \<noteq> of_char CHR '';'' \<and> CurTok s \<noteq> tok_def
     \<and> CurTok s \<noteq> tok_extern"
  shows "MainLoop (Suc n) s =
     (case HandleTopLevelExpression n (fprintf ''ready>'' s) of None \<Rightarrow> None
      | Some s' \<Rightarrow> MainLoop n s')"
  using assms by (simp add: Let_def)

lemma MainLoop_eof:
  assumes "CurTok s = tok_eof"
  shows "MainLoop (Suc n) s = Some (fprintf ''ready>'' s)"
  using assms by (simp add: Let_def)

lemma definition_recovery_text:
  assumes "comparison w e"
  shows "\<exists>N s'. (\<forall>m\<ge>N. main m (''def foo(a;'' @ w) = Some s') \<and> CurTok s' = tok_eof
      \<and> stderr s' = [''ready>'', ''ready>'', ''Error: Expected ')' in prototype'', ''ready>'',
           ''Read a top-level expr: '', ''ready>'']
      \<and> map ret (TheModule s') = [fst (Codegen e (initial []))]
      \<and> fst (Codegen e (initial [])) \<noteq> None"
proof -
  obtain v where v: "\<forall>s. Codegen e s = (Some v, s)"
    using conventional_Codegen(4) [OF assms] by blast
  have "operand 10 w e" using conventional_operand(4) [OF assms] .
  then obtain wa a w' where "w = wa @ w'" "atom wa a" unfolding operand_def by blast
  then obtain c cs where w: "w = c # cs" using atom_head [of wa a] by auto
  let ?S1 = "getNextToken (fprintf ''ready>'' (initial (''def foo(a;'' @ c # cs)))"
  let ?X = "\<lparr>stdin = cs,
          stderr = [''ready>'', ''ready>'', ''Error: Expected ')' in prototype''],
          LastChar = of_char c, IdentifierStr = ''a'', NumVal = [], CurTok = of_char CHR '';'',
          NamedValues = Map.empty, TheModule = [], next_id = 0\<rparr>"
  let ?S3 = "getNextToken ?X"
  let ?sp = "fprintf ''ready>'' ?S3"
  have t1: "CurTok ?S1 = tok_def" by (simp add: parse_eval)
  have l1: "MainLoop (Suc n) ?S1 = MainLoop n ?S3" for n
    using MainLoop_def_failed [OF t1 malformed_definition] .
  have "reads ?X w" by (simp add: reads_def w)
  then have "cur_at ?S3 w" by (rule cur_atI)
  then have c4: "cur_at ?sp w" by (rule cur_at_fprintf)
  from ParseExpression_text [OF assms c4]
  obtain N s4 where s4: "cur_at s4 []" "backend s4 = backend ?sp"
    "\<forall>n\<ge>N. ParseExpression n ?sp = Some (Some e, s4)"
    "CurTok ?sp = tok_number \<or> CurTok ?sp = of_char CHR ''(''"
    by blast
  have "backend ?sp = (stderr ?X @ [''ready>''], NamedValues ?X, TheModule ?X, next_id ?X)"
    using backend_getNextToken [of ?X] by (simp add: backend_def fprintf_def)
  then have b4: "stderr s4 = [''ready>'', ''ready>'', ''Error: Expected ')' in prototype'', ''ready>'']"
    "TheModule s4 = []" "next_id s4 = 0"
    using s4(2) by (simp_all add: backend_def)
  have e4: "CurTok s4 = tok_eof" using s4(1) by (rule cur_at_Nil)
  let ?F = "\<lparr>fn_id = 0, fn_name = [], arg_size = 0, blocks = [''entry''], ret = Some v\<rparr>"
  let ?s5 = "s4\<lparr>NamedValues := Map.empty, TheModule := [?F], next_id := Suc 0\<rparr>"
  have cg: "FunctionAST_Codegen (FunctionAST (PrototypeAST [] []) e) s4 = (Some 0, ?s5)"
    using b4 v by (simp add: cg_eval)
  let ?s6 = "fprintf ''Read a top-level expr: '' ?s5"
  have h: "HandleTopLevelExpression n ?sp = Some ?s6" if "N \<le> n" for n
    using s4(3) [rule_format, OF that] cg
    by (simp add: HandleTopLevelExpression_def ParseTopLevelExpr_def)
  have t3: "CurTok ?S3 = tok_number \<or> CurTok ?S3 = of_char CHR ''(''" using s4(4) by simp
  have l2: "MainLoop (Suc n) ?S3 = MainLoop n ?s6" if "N \<le> n" for n
    using MainLoop_top [OF top_token [OF t3], of n] h [OF that] by simp
  have "CurTok ?s6 = tok_eof" using e4 by simp
  then have l3: "MainLoop (Suc n) ?s6 = Some (fprintf ''ready>'' ?s6)" for n
    by (rule MainLoop_eof)
  define sf where "sf = fprintf ''ready>'' ?s6"
  have run: "main m (''def foo(a;'' @ w) = Some sf" if "N + 3 \<le> m" for m
  proof -
    define k where "k = m - 3"
    have k: "m = Suc (Suc (Suc k))" "N \<le> Suc k" using that by (simp_all add: k_def)
    have "main m (''def foo(a;'' @ w) = MainLoop m ?S1" by (simp only: main_def w)
    also have "\<dots> = MainLoop (Suc (Suc k)) ?S3" unfolding k(1) by (rule l1)
    also have "\<dots> = MainLoop (Suc k) ?s6" using k(2) by (rule l2)
    also have "\<dots> = Some sf" unfolding sf_def by (rule l3)
    finally show ?thesis .
  qed
  have f1: "CurTok sf = tok_eof" using e4 by (simp add: sf_def)
  have f2: "stderr sf
      = [''ready>'', ''ready>'', ''Error: Expected ')' in prototype'', ''ready>'',
           ''Read a top-level expr: '', ''ready>'']"
    using b4 by (simp add: sf_def)
  have f3: "map ret (TheModule sf) = [fst (Codegen e (initial []))]"
    using v by (simp add: sf_def)
  have f4: "fst (Codegen e (initial [])) \<noteq> None" using v by simp
  show ?thesis
  proof (intro exI conjI allI impI)
    fix m assume "N + 3 \<le> m"
    then show "main m (''def foo(a;'' @ w) = Some sf" by (rule run)
  qed (rule f1 f2 f3 f4)+
qed


lemma token_codes_distinct:
  "tok_def \<noteq> tok_eof" "tok_extern \<noteq> tok_eof" "tok_extern \<noteq> tok_def"
  "tok_def \<noteq> of_char CHR '';''" "tok_extern \<noteq> of_char CHR '';''" "tok_eof \<noteq> of_char CHR '';''"
  by (simp_all add: tok_def_def tok_eof_def tok_extern_def)

text \<open>
  C4 as stated does not hold for a failure of the lowering: the handlers call
  \<^verbatim>\<open>getNextToken\<close> only in the branch where the parser returned the null pointer. On the
  input \<^verbatim>\<open>x 1\<close> the expression \<^verbatim>\<open>x\<close> parses and fails to lower, and the token \<^verbatim>\<open>1\<close> that
  follows it is still the current token afterwards; discarding a token would have left
  the end of the input. Nor is every expression after a malformed definition processed:
  the token that is discarded after \<^verbatim>\<open>def foo(a\<close> is the token at which the parser stopped,
  so when the expression \<^verbatim>\<open>1\<close> follows on the next line nothing is lowered, and of \<^verbatim>\<open>1+2\<close>
  only \<^verbatim>\<open>2\<close> is.
\<close>

theorem lowering_failure_discards_no_token:
  "map_option fst (ParseTopLevelExpr 5 (getNextToken (initial ''x 1'')))
     = Some (Some (FunctionAST (PrototypeAST [] []) (VariableExprAST ''x'')))
   \<and> fst (FunctionAST_Codegen (FunctionAST (PrototypeAST [] []) (VariableExprAST ''x''))
        (snd (the (ParseTopLevelExpr 5 (getNextToken (initial ''x 1'')))))) = None
   \<and> map_option cursor (HandleTopLevelExpression 5 (getNextToken (initial ''x 1'')))
     = Some (cursor (snd (the (ParseTopLevelExpr 5 (getNextToken (initial ''x 1''))))))
   \<and> map_option CurTok (HandleTopLevelExpression 5 (getNextToken (initial ''x 1''))) = Some tok_number
   \<and> CurTok (getNextToken (snd (the (ParseTopLevelExpr 5 (getNextToken (initial ''x 1''))))))
     = tok_eof
   \<and> map_option TheModule (main 10 (''def foo(a'' @ [CHR 0x0A] @ ''1'')) = Some []
   \<and> map_option stderr (main 10 (''def foo(a'' @ [CHR 0x0A] @ ''1''))
     = Some [''ready>'', ''ready>'', ''Error: Expected ')' in prototype'', ''ready>'']
   \<and> map_option (\<lambda>s. map ret (TheModule s)) (main 10 (''def foo(a'' @ [CHR 0x0A] @ ''1+2''))
     = Some [Some (ConstantFP ''2'')]"
  by (simp add: run_eval fuel_numeral cursor_def)

text \<open>
  C4 as amended. When the parser fails, the handler discards exactly one token: its result
  is \<open>getNextToken\<close> of the state the parser left, and the loop goes on from that state.
  When the parser succeeds, the handler leaves the lexer and the current token where the
  parser left them, whether the lowering fails or not, and the loop goes on from the state
  the lowering left (with the handler's message when the lowering succeeded). A \<^verbatim>\<open>;\<close> is
  skipped. The loop returns at the end of the input, and only there. After the malformed
  \<^verbatim>\<open>def foo(a\<close>, once the \<^verbatim>\<open>;\<close> at which the parser stopped is discarded, every expression of
  the conventional grammar up to the end of the input is parsed and lowered: for every
  bound from some bound on, \<^verbatim>\<open>main\<close> returns, having printed the one diagnostic, with the
  function of that expression as the only function of the module.
\<close>

theorem driver_recovery:
  "(\<forall>s1. ParseDefinition n s = Some (None, s1) \<longrightarrow> HandleDefinition n s = Some (getNextToken s1))
   \<and> (\<forall>Fn s1. ParseDefinition n s = Some (Some Fn, s1) \<longrightarrow>
        (\<exists>s2. HandleDefinition n s = Some s2 \<and> cursor s2 = cursor s1))
   \<and> (\<forall>s1. ParseExtern s = (None, s1) \<longrightarrow> HandleExtern s = getNextToken s1)
   \<and> (\<forall>P s1. ParseExtern s = (Some P, s1) \<longrightarrow> cursor (HandleExtern s) = cursor s1)
   \<and> (\<forall>s1. ParseTopLevelExpr n s = Some (None, s1) \<longrightarrow>
        HandleTopLevelExpression n s = Some (getNextToken s1))
   \<and> (\<forall>Fn s1. ParseTopLevelExpr n s = Some (Some Fn, s1) \<longrightarrow>
        (\<exists>s2. HandleTopLevelExpression n s = Some s2 \<and> cursor s2 = cursor s1))
   \<and> (\<forall>s'. MainLoop n s = Some s' \<longrightarrow> CurTok s' = tok_eof)
   \<and> (CurTok s = tok_eof \<longrightarrow> MainLoop (Suc n) s = Some (fprintf ''ready>'' s))
   \<and> (CurTok s = of_char CHR '';'' \<longrightarrow>
        MainLoop (Suc n) s = MainLoop n (getNextToken (fprintf ''ready>'' s)))
   \<and> (\<forall>s1. CurTok s = tok_def \<and> ParseDefinition n (fprintf ''ready>'' s) = Some (None, s1) \<longrightarrow>
        MainLoop (Suc n) s = MainLoop n (getNextToken s1))
   \<and> (\<forall>Fn s1 r s2. CurTok s = tok_def
          \<and> ParseDefinition n (fprintf ''ready>'' s) = Some (Some Fn, s1)
          \<and> FunctionAST_Codegen Fn s1 = (r, s2) \<longrightarrow>
        MainLoop (Suc n) s
          = MainLoop n (case r of None \<Rightarrow> s2
                        | Some f \<Rightarrow> fprintf ''Parsed a function definition.'' s2)
        \<and> cursor s2 = cursor s1)
   \<and> (\<forall>s1. CurTok s = tok_extern \<and> ParseExtern (fprintf ''ready>'' s) = (None, s1) \<longrightarrow>
        MainLoop (Suc n) s = MainLoop n (getNextToken s1))
   \<and> (\<forall>P s1 r s2. CurTok s = tok_extern \<and> ParseExtern (fprintf ''ready>'' s) = (Some P, s1)
          \<and> PrototypeAST_Codegen P s1 = (r, s2) \<longrightarrow>
        MainLoop (Suc n) s
          = MainLoop n (case r of None \<Rightarrow> s2 | Some f \<Rightarrow> fprintf ''Read extern: '' s2)
        \<and> cursor s2 = cursor s1)
   \<and> (\<forall>s1. CurTok s \<noteq> tok_eof \<and> CurTok s \<noteq> of_char CHR '';'' \<and> CurTok s \<noteq> tok_def
          \<and> CurTok s \<noteq> tok_extern
          \<and> ParseTopLevelExpr n (fprintf ''ready>'' s) = Some (None, s1) \<longrightarrow>
        MainLoop (Suc n) s = MainLoop n (getNextToken s1))
   \<and> (\<forall>Fn s1 r s2. CurTok s \<noteq> tok_eof \<and> CurTok s \<noteq> of_char CHR '';'' \<and> CurTok s \<noteq> tok_def
          \<and> CurTok s \<noteq> tok_extern
          \<and> ParseTopLevelExpr n (fprintf ''ready>'' s) = Some (Some Fn, s1)
          \<and> FunctionAST_Codegen Fn s1 = (r, s2) \<longrightarrow>
        MainLoop (Suc n) s
          = MainLoop n (case r of None \<Rightarrow> s2 | Some f \<Rightarrow> fprintf ''Read a top-level expr: '' s2)
        \<and> cursor s2 = cursor s1)
   \<and> (comparison w e \<longrightarrow>
        (\<exists>N s'. (\<forall>m\<ge>N. main m (''def foo(a;'' @ w) = Some s') \<and> CurTok s' = tok_eof
          \<and> stderr s' = [''ready>'', ''ready>'', ''Error: Expected ')' in prototype'', ''ready>'',
               ''Read a top-level expr: '', ''ready>'']
          \<and> map ret (TheModule s') = [fst (Codegen e (initial []))]
          \<and> fst (Codegen e (initial [])) \<noteq> None))"
proof -
  let ?sp = "fprintf ''ready>'' s"
  have c1: "\<forall>s1. ParseDefinition n s = Some (None, s1) \<longrightarrow> HandleDefinition n s = Some (getNextToken s1)"
    by (simp add: HandleDefinition_def)
  have c2: "\<forall>Fn s1. ParseDefinition n s = Some (Some Fn, s1) \<longrightarrow>
        (\<exists>s2. HandleDefinition n s = Some s2 \<and> cursor s2 = cursor s1)"
  proof (intro allI impI)
    fix Fn s1 assume a: "ParseDefinition n s = Some (Some Fn, s1)"
    obtain r s2 where c: "FunctionAST_Codegen Fn s1 = (r, s2)" by (cases "FunctionAST_Codegen Fn s1")
    then have "cursor s2 = cursor s1" using FunctionAST_Codegen_cursor [of Fn s1] by simp
    then show "\<exists>s2. HandleDefinition n s = Some s2 \<and> cursor s2 = cursor s1"
      using a c by (cases r) (simp_all add: HandleDefinition_def)
  qed
  have c3: "\<forall>s1. ParseExtern s = (None, s1) \<longrightarrow> HandleExtern s = getNextToken s1"
    by (simp add: HandleExtern_def)
  have c4: "\<forall>P s1. ParseExtern s = (Some P, s1) \<longrightarrow> cursor (HandleExtern s) = cursor s1"
  proof (intro allI impI)
    fix P s1 assume a: "ParseExtern s = (Some P, s1)"
    obtain r s2 where c: "PrototypeAST_Codegen P s1 = (r, s2)" by (cases "PrototypeAST_Codegen P s1")
    then have "cursor s2 = cursor s1" using PrototypeAST_Codegen_cursor [of P s1] by simp
    then show "cursor (HandleExtern s) = cursor s1"
      using a c by (cases r) (simp_all add: HandleExtern_def)
  qed
  have c5: "\<forall>s1. ParseTopLevelExpr n s = Some (None, s1) \<longrightarrow>
        HandleTopLevelExpression n s = Some (getNextToken s1)"
    by (simp add: HandleTopLevelExpression_def)
  have c6: "\<forall>Fn s1. ParseTopLevelExpr n s = Some (Some Fn, s1) \<longrightarrow>
        (\<exists>s2. HandleTopLevelExpression n s = Some s2 \<and> cursor s2 = cursor s1)"
  proof (intro allI impI)
    fix Fn s1 assume a: "ParseTopLevelExpr n s = Some (Some Fn, s1)"
    obtain r s2 where c: "FunctionAST_Codegen Fn s1 = (r, s2)" by (cases "FunctionAST_Codegen Fn s1")
    then have "cursor s2 = cursor s1" using FunctionAST_Codegen_cursor [of Fn s1] by simp
    then show "\<exists>s2. HandleTopLevelExpression n s = Some s2 \<and> cursor s2 = cursor s1"
      using a c by (cases r) (simp_all add: HandleTopLevelExpression_def)
  qed
  have c7: "\<forall>s'. MainLoop n s = Some s' \<longrightarrow> CurTok s' = tok_eof"
    using MainLoop_returns_at_eof by blast
  have c8: "CurTok s = tok_eof \<longrightarrow> MainLoop (Suc n) s = Some ?sp"
    by (simp add: Let_def)
  have c9: "CurTok s = of_char CHR '';'' \<longrightarrow> MainLoop (Suc n) s = MainLoop n (getNextToken ?sp)"
    using token_codes_distinct(6) by (auto simp: Let_def)
  have d: "MainLoop (Suc n) s
      = (case HandleDefinition n ?sp of None \<Rightarrow> None | Some s' \<Rightarrow> MainLoop n s')"
    if "CurTok s = tok_def"
    using that token_codes_distinct by (simp add: Let_def)
  have x: "MainLoop (Suc n) s = MainLoop n (HandleExtern ?sp)" if "CurTok s = tok_extern"
    using that token_codes_distinct by (simp add: Let_def)
  have t: "MainLoop (Suc n) s
      = (case HandleTopLevelExpression n ?sp of None \<Rightarrow> None | Some s' \<Rightarrow> MainLoop n s')"
    if "CurTok s \<noteq> tok_eof \<and> CurTok s \<noteq> of_char CHR '';'' \<and> CurTok s \<noteq> tok_def
          \<and> CurTok s \<noteq> tok_extern"
    using that by (simp add: Let_def)
  have c10: "\<forall>s1. CurTok s = tok_def \<and> ParseDefinition n ?sp = Some (None, s1) \<longrightarrow>
        MainLoop (Suc n) s = MainLoop n (getNextToken s1)"
    using d by (simp add: HandleDefinition_def)
  have c11: "\<forall>Fn s1 r s2. CurTok s = tok_def \<and> ParseDefinition n ?sp = Some (Some Fn, s1)
          \<and> FunctionAST_Codegen Fn s1 = (r, s2) \<longrightarrow>
        MainLoop (Suc n) s
          = MainLoop n (case r of None \<Rightarrow> s2
                        | Some f \<Rightarrow> fprintf ''Parsed a function definition.'' s2)
        \<and> cursor s2 = cursor s1"
  proof (intro allI impI)
    fix Fn s1 r s2
    assume a: "CurTok s = tok_def \<and> ParseDefinition n ?sp = Some (Some Fn, s1)
          \<and> FunctionAST_Codegen Fn s1 = (r, s2)"
    have "cursor s2 = cursor s1" using FunctionAST_Codegen_cursor [of Fn s1] a by simp
    moreover have "MainLoop (Suc n) s
          = MainLoop n (case r of None \<Rightarrow> s2
                        | Some f \<Rightarrow> fprintf ''Parsed a function definition.'' s2)"
      using a d by (cases r) (simp_all add: HandleDefinition_def)
    ultimately show "MainLoop (Suc n) s
          = MainLoop n (case r of None \<Rightarrow> s2
                        | Some f \<Rightarrow> fprintf ''Parsed a function definition.'' s2)
        \<and> cursor s2 = cursor s1" by simp
  qed
  have c12: "\<forall>s1. CurTok s = tok_extern \<and> ParseExtern ?sp = (None, s1) \<longrightarrow>
        MainLoop (Suc n) s = MainLoop n (getNextToken s1)"
    using x by (simp add: HandleExtern_def)
  have c13: "\<forall>P s1 r s2. CurTok s = tok_extern \<and> ParseExtern ?sp = (Some P, s1)
          \<and> PrototypeAST_Codegen P s1 = (r, s2) \<longrightarrow>
        MainLoop (Suc n) s
          = MainLoop n (case r of None \<Rightarrow> s2 | Some f \<Rightarrow> fprintf ''Read extern: '' s2)
        \<and> cursor s2 = cursor s1"
  proof (intro allI impI)
    fix P s1 r s2
    assume a: "CurTok s = tok_extern \<and> ParseExtern ?sp = (Some P, s1)
          \<and> PrototypeAST_Codegen P s1 = (r, s2)"
    have "cursor s2 = cursor s1" using PrototypeAST_Codegen_cursor [of P s1] a by simp
    moreover have "MainLoop (Suc n) s
          = MainLoop n (case r of None \<Rightarrow> s2 | Some f \<Rightarrow> fprintf ''Read extern: '' s2)"
      using a x by (cases r) (simp_all add: HandleExtern_def)
    ultimately show "MainLoop (Suc n) s
          = MainLoop n (case r of None \<Rightarrow> s2 | Some f \<Rightarrow> fprintf ''Read extern: '' s2)
        \<and> cursor s2 = cursor s1" by simp
  qed
  have c14: "\<forall>s1. CurTok s \<noteq> tok_eof \<and> CurTok s \<noteq> of_char CHR '';'' \<and> CurTok s \<noteq> tok_def
          \<and> CurTok s \<noteq> tok_extern
          \<and> ParseTopLevelExpr n ?sp = Some (None, s1) \<longrightarrow>
        MainLoop (Suc n) s = MainLoop n (getNextToken s1)"
    using t by (simp add: HandleTopLevelExpression_def)
  have c15: "\<forall>Fn s1 r s2. CurTok s \<noteq> tok_eof \<and> CurTok s \<noteq> of_char CHR '';'' \<and> CurTok s \<noteq> tok_def
          \<and> CurTok s \<noteq> tok_extern
          \<and> ParseTopLevelExpr n ?sp = Some (Some Fn, s1)
          \<and> FunctionAST_Codegen Fn s1 = (r, s2) \<longrightarrow>
        MainLoop (Suc n) s
          = MainLoop n (case r of None \<Rightarrow> s2 | Some f \<Rightarrow> fprintf ''Read a top-level expr: '' s2)
        \<and> cursor s2 = cursor s1"
  proof (intro allI impI)
    fix Fn s1 r s2
    assume a: "CurTok s \<noteq> tok_eof \<and> CurTok s \<noteq> of_char CHR '';'' \<and> CurTok s \<noteq> tok_def
          \<and> CurTok s \<noteq> tok_extern
          \<and> ParseTopLevelExpr n ?sp = Some (Some Fn, s1)
          \<and> FunctionAST_Codegen Fn s1 = (r, s2)"
    have "cursor s2 = cursor s1" using FunctionAST_Codegen_cursor [of Fn s1] a by simp
    moreover have "MainLoop (Suc n) s
          = (case HandleTopLevelExpression n ?sp of None \<Rightarrow> None | Some s' \<Rightarrow> MainLoop n s')"
      using a by (intro t) simp
    then have "MainLoop (Suc n) s
          = MainLoop n (case r of None \<Rightarrow> s2 | Some f \<Rightarrow> fprintf ''Read a top-level expr: '' s2)"
      using a by (cases r) (simp_all add: HandleTopLevelExpression_def)
    ultimately show "MainLoop (Suc n) s
          = MainLoop n (case r of None \<Rightarrow> s2 | Some f \<Rightarrow> fprintf ''Read a top-level expr: '' s2)
        \<and> cursor s2 = cursor s1" by simp
  qed
  have c16: "comparison w e \<longrightarrow>
        (\<exists>N s'. (\<forall>m\<ge>N. main m (''def foo(a;'' @ w) = Some s') \<and> CurTok s' = tok_eof
          \<and> stderr s' = [''ready>'', ''ready>'', ''Error: Expected ')' in prototype'', ''ready>'',
               ''Read a top-level expr: '', ''ready>'']
          \<and> map ret (TheModule s') = [fst (Codegen e (initial []))]
          \<and> fst (Codegen e (initial [])) \<noteq> None)"
    using definition_recovery_text by blast
  show ?thesis
    using c1 c2 c3 c4 c5 c6 c7 c8 c9 c10 c11 c12 c13 c14 c15 c16 by (intro conjI)
qed


theorem driver_recovery_witness:
  "HandleDefinition 10 (fprintf ''ready>'' (getNextToken (fprintf ''ready>'' (initial ''def foo(a; 1+2;''))))
     = Some (getNextToken (snd (the (ParseDefinition 10
          (fprintf ''ready>'' (getNextToken (fprintf ''ready>'' (initial ''def foo(a; 1+2;''))))))))
   \<and> MainLoop (Suc 9) (getNextToken (fprintf ''ready>'' (initial ''def foo(a; 1+2;'')))
     = MainLoop 9 (getNextToken (snd (the (ParseDefinition 9
          (fprintf ''ready>'' (getNextToken (fprintf ''ready>'' (initial ''def foo(a; 1+2;''))))))))
   \<and> MainLoop (Suc 9) (getNextToken (fprintf ''ready>'' (initial ''x 1'')))
     = MainLoop 9 (snd (FunctionAST_Codegen (FunctionAST (PrototypeAST [] []) (VariableExprAST ''x''))
          (snd (the (ParseTopLevelExpr 9
             (fprintf ''ready>'' (getNextToken (fprintf ''ready>'' (initial ''x 1''))))))))) 
   \<and> CurTok (snd (FunctionAST_Codegen (FunctionAST (PrototypeAST [] []) (VariableExprAST ''x''))
          (snd (the (ParseTopLevelExpr 9
             (fprintf ''ready>'' (getNextToken (fprintf ''ready>'' (initial ''x 1'')))))))))
     = tok_number
   \<and> (\<exists>N s'. (\<forall>m\<ge>N. main m ''def foo(a;1+2'' = Some s') \<and> CurTok s' = tok_eof
          \<and> stderr s' = [''ready>'', ''ready>'', ''Error: Expected ')' in prototype'', ''ready>'',
               ''Read a top-level expr: '', ''ready>'']
          \<and> map ret (TheModule s') = [Some (FAdd (ConstantFP ''1'') (ConstantFP ''2''))])
   \<and> map_option stderr (main 10 ''def foo(a; 1+2;'')
     = Some [''ready>'', ''ready>'', ''Error: Expected ')' in prototype'', ''ready>'',
             ''Read a top-level expr: '', ''ready>'', ''ready>'']
   \<and> map_option CurTok (main 10 ''def foo(a; 1+2;'') = Some tok_eof
   \<and> map_option (\<lambda>s. map ret (TheModule s)) (main 10 ''def foo(a; 1+2;'')
     = Some [Some (FAdd (ConstantFP ''1'') (ConstantFP ''2''))]"
proof -
  let ?s0 = "getNextToken (fprintf ''ready>'' (initial ''def foo(a; 1+2;''))"
  let ?sd = "fprintf ''ready>'' ?s0"
  let ?x0 = "getNextToken (fprintf ''ready>'' (initial ''x 1''))"
  let ?Fx = "FunctionAST (PrototypeAST [] []) (VariableExprAST ''x'')"
  let ?x1 = "snd (the (ParseTopLevelExpr 9 (fprintf ''ready>'' ?x0)))"
  let ?x2 = "snd (FunctionAST_Codegen ?Fx ?x1)"
  have p: "ParseDefinition 10 ?sd = Some (None, snd (the (ParseDefinition 10 ?sd)))"
    by (simp add: run_eval fuel_numeral)
  note A = driver_recovery [of 10 ?sd, THEN conjunct1, rule_format, OF p]
  have q: "CurTok ?s0 = tok_def
      \<and> ParseDefinition 9 ?sd = Some (None, snd (the (ParseDefinition 9 ?sd)))"
    by (simp add: run_eval fuel_numeral)
  note L = driver_recovery [of 9 ?s0, THEN conjunct2, THEN conjunct2, THEN conjunct2,
      THEN conjunct2, THEN conjunct2, THEN conjunct2, THEN conjunct2, THEN conjunct2,
      THEN conjunct2, THEN conjunct1, rule_format, OF q]
  have x: "CurTok ?x0 \<noteq> tok_eof \<and> CurTok ?x0 \<noteq> of_char CHR '';'' \<and> CurTok ?x0 \<noteq> tok_def
      \<and> CurTok ?x0 \<noteq> tok_extern
      \<and> ParseTopLevelExpr 9 (fprintf ''ready>'' ?x0) = Some (Some ?Fx, ?x1)
      \<and> FunctionAST_Codegen ?Fx ?x1 = (None, ?x2)"
    by (simp add: run_eval fuel_numeral)
  note X = driver_recovery [of 9 ?x0, THEN conjunct2, THEN conjunct2, THEN conjunct2,
      THEN conjunct2, THEN conjunct2, THEN conjunct2, THEN conjunct2, THEN conjunct2,
      THEN conjunct2, THEN conjunct2, THEN conjunct2, THEN conjunct2, THEN conjunct2,
      THEN conjunct2, THEN conjunct1, rule_format, OF x]
  have X1: "MainLoop (Suc 9) ?x0 = MainLoop 9 ?x2" using X [THEN conjunct1] by simp
  have X2: "CurTok ?x2 = tok_number"
    by (simp add: run_eval fuel_numeral)
  have n: "is_numeral ''1''" "is_numeral ''2''"
    by (simp_all add: is_numeral_def cclass)
  have g: "comparison ''1+2'' (BinaryExprAST CHR ''+'' (NumberExprAST ''1'') (NumberExprAST ''2''))"
    using comparison_summation [OF plus [OF summation_product [OF product_primary [OF number [OF n(1)]]]
      product_primary [OF number [OF n(2)]]]]
    by simp
  note T = driver_recovery [where w = "''1+2''", THEN conjunct2, THEN conjunct2, THEN conjunct2,
      THEN conjunct2, THEN conjunct2, THEN conjunct2, THEN conjunct2, THEN conjunct2,
      THEN conjunct2, THEN conjunct2, THEN conjunct2, THEN conjunct2, THEN conjunct2,
      THEN conjunct2, THEN conjunct2, rule_format, OF g]
  have T1: "\<exists>N s'. (\<forall>m\<ge>N. main m ''def foo(a;1+2'' = Some s') \<and> CurTok s' = tok_eof
          \<and> stderr s' = [''ready>'', ''ready>'', ''Error: Expected ')' in prototype'', ''ready>'',
               ''Read a top-level expr: '', ''ready>'']
          \<and> map ret (TheModule s') = [Some (FAdd (ConstantFP ''1'') (ConstantFP ''2''))]"
    using T by simp
  have m: "main 10 ''def foo(a; 1+2;'' = Some (the (main 10 ''def foo(a; 1+2;''))"
    and e: "map_option stderr (main 10 ''def foo(a; 1+2;'')
     = Some [''ready>'', ''ready>'', ''Error: Expected ')' in prototype'', ''ready>'',
             ''Read a top-level expr: '', ''ready>'', ''ready>'']"
    and r: "map_option (\<lambda>s. map ret (TheModule s)) (main 10 ''def foo(a; 1+2;'')
     = Some [Some (FAdd (ConstantFP ''1'') (ConstantFP ''2''))]"
    by (simp_all add: run_eval fuel_numeral)
  from m have "MainLoop 10 ?s0 = Some (the (main 10 ''def foo(a; 1+2;''))"
    by (simp add: main_def)
  note B = driver_recovery [of 10 ?s0, THEN conjunct2, THEN conjunct2, THEN conjunct2,
      THEN conjunct2, THEN conjunct2, THEN conjunct2, THEN conjunct1, rule_format, OF this]
  from m B have c: "map_option CurTok (main 10 ''def foo(a; 1+2;'') = Some tok_eof"
    by (metis option.simps(9))
  show ?thesis using A L X1 X2 T1 e c r by (intro conjI)
qed

end
